theory Spec2Isabelle
  imports Main "HOL-Library.Sublist"
begin

section \<open>Values, exceptions and the libraries behind the window\<close>

text \<open>
  \<^verbatim>\<open>window.py\<close> is glue code: every statement of it calls into GLFW, imgui, OpenGL, PIL,
  \<^verbatim>\<open>os\<close>, \<^verbatim>\<open>ctypes\<close> or the logger. The model keeps the control flow of the source and
  records each such call, with the answer it got, in a trace. The libraries themselves are a
  parameter, the \<open>world\<close>: a function from the events so far and the call made to that call's
  answer, which is a returned value or a raised exception.
\<close>

text \<open>The Python values the code looks at: it only tests them for truth and passes them on.\<close>

datatype val = VNone | VBool bool | VInt int | VPtr nat | VObj nat

text \<open>Python's truth test, as \<^verbatim>\<open>if not x\<close> applies it: a null pointer of ctypes is false.\<close>

fun truthy :: "val \<Rightarrow> bool" where
  "truthy VNone = False"
| "truthy (VBool b) = b"
| "truthy (VInt i) = (i \<noteq> 0)"
| "truthy (VPtr p) = (p \<noteq> 0)"
| "truthy (VObj n) = True"

text \<open>Exception classes: the one the source names in an \<^verbatim>\<open>except\<close> clause, and all others.\<close>

datatype exn = AttributeError | OtherError string

text \<open>
  How a piece of the code ends early: \<^verbatim>\<open>exit(n)\<close> in the source itself, or an exception
  that a callee raised.
\<close>

datatype abort = Exit int | Raised exn

datatype resp = Ret val | Raise exn

datatype platform = Windows | Posix

text \<open>
  A \<^verbatim>\<open>pathlib.Path\<close>, as the source builds it: \<open>Path segments\<close> is
  \<^verbatim>\<open>pathlib.Path(*segments)\<close> and \<open>Div p name\<close> is \<^verbatim>\<open>p / name\<close>. What \<^verbatim>\<open>pathlib\<close> makes
  of a join is \<^verbatim>\<open>pathlib\<close>'s business (an absolute \<open>name\<close> replaces \<open>p\<close>), so the join is
  kept as it is written and never evaluated.
\<close>

datatype path = Path "string list" | Div path string

datatype hint =
  CONTEXT_VERSION_MAJOR | CONTEXT_VERSION_MINOR | OPENGL_PROFILE | OPENGL_FORWARD_COMPAT

text \<open>
  The methods of \<^verbatim>\<open>Window\<close> that are entered from outside their own class body: the four
  lifecycle hooks, which a subclass may override, and \<^verbatim>\<open>_resize_event\<close>, which GLFW calls.
\<close>

datatype hook = PreInit | PostInit | PreExitLoop | PostExitLoop | ResizeEvent

datatype printed = PStr string | PPath path | PType string

text \<open>
  The calls the source makes, one constructor per callee, with the arguments the source
  passes. \<^verbatim>\<open>imgui.get_io().x\<close> and \<^verbatim>\<open>imgui.get_io().x = v\<close> are one call each.
  Looking a method up and calling it are one call too, but for the renderer's
  \<^verbatim>\<open>render\<close>: Python looks \<^verbatim>\<open>self._renderer.render\<close> up (\<open>GetattrRender\<close>), then evaluates
  the argument \<^verbatim>\<open>imgui.get_draw_data()\<close>, then calls (\<open>RendererRender\<close>).
  \<open>Override h\<close> is the body of a subclass's own version of hook \<open>h\<close>, and \<open>DrawBody\<close> that
  of its \<^verbatim>\<open>draw\<close>: code the base class knows nothing of.
  \<open>ImageLoad\<close> is PIL's \<^verbatim>\<open>Image.load\<close>, which decodes the pixels of an opened image
  (\<^verbatim>\<open>Image.open\<close> reads the header only); the source never calls it.
\<close>

datatype call =
    ImageOpen string
  | ImageLoad val
  | GlfwInit
  | LoggerCritical string
  | CtypesWindll
  | SetCurrentProcessExplicitAppUserModelID string
  | GlfwWindowHint hint int
  | GlfwCreateWindow int int string
  | GlfwMakeContextCurrent val
  | GlfwSetWindowIcon val nat "val list"
  | GlfwTerminate
  | ImguiCreateContext
  | OsMakedirs path
  | Print "printed list"
  | ImguiSetIniFileName "path option"
  | ImguiLoadIniSettingsFromDisk path
  | ImguiSaveIniSettingsToDisk path
  | NewGlfwRenderer val
  | GlClearColor int int int int
  | GlfwSetWindowRefreshCallback val
  | GlfwWindowShouldClose val
  | GlfwPollEvents
  | RendererProcessInputs val
  | ImguiWantSaveIniSettings
  | ImguiNewFrame
  | DrawBody
  | GlClear
  | ImguiRender
  | GetattrRender val
  | ImguiGetDrawData
  | RendererRender val val
  | GlfwSwapBuffers val
  | RendererShutdown val
  | Override hook

text \<open>
  An event is a call with its answer, or the entry into a hook (whether the subclass
  overrides it or not).
\<close>

datatype event = Ext call resp | Enter hook

text \<open>
  The libraries: how they answer a call, given the events so far, and how often GLFW
  calls the window's refresh callback while it polls for events (it does so when the window
  has to be drawn again, as during a resize).
\<close>

record world =
  answer :: "event list \<Rightarrow> call \<Rightarrow> resp"
  refreshes :: "event list \<Rightarrow> nat"

text \<open>
  A piece of code takes the events before it and gives how it ended, with the events it
  added, in order.
\<close>

type_synonym 'a prog = "event list \<Rightarrow> (abort + 'a) \<times> event list"

definition ret :: "'a \<Rightarrow> 'a prog" where
  "ret x h = (Inr x, [])"

text \<open>Python's \<^verbatim>\<open>exit(n)\<close>.\<close>

definition exit_py :: "int \<Rightarrow> 'a prog" where
  "exit_py n h = (Inl (Exit n), [])"

definition ext :: "world \<Rightarrow> call \<Rightarrow> val prog" where
  "ext w c h =
     (case answer w h c of
        Ret v \<Rightarrow> (Inr v, [Ext c (Ret v)])
      | Raise e \<Rightarrow> (Inl (Raised e), [Ext c (Raise e)]))"

definition enter :: "hook \<Rightarrow> val prog" where
  "enter k h = (Inr VNone, [Enter k])"

text \<open>One statement after another: the second runs only if the first ended normally.\<close>

definition and_then :: "'a prog \<Rightarrow> ('a \<Rightarrow> 'b prog) \<Rightarrow> 'b prog" where
  "and_then m f h =
     (case m h of
        (Inl a, n1) \<Rightarrow> (Inl a, n1)
      | (Inr x, n1) \<Rightarrow> (case f x (h @ n1) of (r, n2) \<Rightarrow> (r, n1 @ n2)))"

text \<open>\<^verbatim>\<open>try: m  except AttributeError: pass\<close>\<close>

definition try_except_AttributeError :: "val prog \<Rightarrow> val prog" where
  "try_except_AttributeError m h =
     (case m h of
        (Inl (Raised AttributeError), n) \<Rightarrow> (Inr VNone, n)
      | other \<Rightarrow> other)"

section \<open>The class \<^verbatim>\<open>Icon\<close>\<close>

record Icon =
  images :: "val list"

text \<open>The loop of \<^verbatim>\<open>Icon.__init__\<close>: open each path in turn and append the image.\<close>

fun Icon_loop :: "world \<Rightarrow> string list \<Rightarrow> val list \<Rightarrow> (val list) prog" where
  "Icon_loop w [] imgs = ret imgs"
| "Icon_loop w (icon_path # rest) imgs =
     and_then (ext w (ImageOpen icon_path)) (\<lambda>img. Icon_loop w rest (imgs @ [img]))"

definition Icon_init :: "world \<Rightarrow> string list \<Rightarrow> Icon prog" where
  "Icon_init w ordered_icon_paths =
     and_then (Icon_loop w ordered_icon_paths []) (\<lambda>imgs. ret \<lparr>images = imgs\<rparr>)"

definition glfw_images :: "Icon \<Rightarrow> val list" where
  "glfw_images icon = images icon"

section \<open>The class \<^verbatim>\<open>Window\<close>\<close>

text \<open>
  The class attributes, which a subclass may set, and which of the hooks it overrides.
\<close>

record Window_class =
  WINDOW_TITLE :: string
  WINDOW_WIDTH :: int
  WINDOW_HEIGHT :: int
  WINDOW_ICON :: "Icon option"
  WINDOW_ID_UNIQUE :: string
  WINDOW_ID_PERSISTENT :: string
  GROUP_UNIQUE_WINDOWS_IN_TASKBAR :: bool
  IMGUI_USE_INI :: bool
  IMGUI_INI_DIR :: path
  GLFW_CONTEXT_VERSION_MAJOR :: int
  GLFW_CONTEXT_VERSION_MINOR :: int
  GLFW_OPENGL_PROFILE :: int
  GL_CLEAR_COLOUR :: "int \<times> int \<times> int \<times> int"
  overrides :: "hook \<Rightarrow> bool"

text \<open>
  The attributes as \<^verbatim>\<open>Window\<close> itself sets them, given the temporary directory and the
  uuid drawn when the module is loaded. \<^verbatim>\<open>glfw.OPENGL_CORE_PROFILE\<close> is \<open>0x00032001\<close>.
\<close>

definition Window_base :: "string \<Rightarrow> string \<Rightarrow> Window_class" where
  "Window_base tempdir uuid4 =
     \<lparr>WINDOW_TITLE = [],
      WINDOW_WIDTH = 1280,
      WINDOW_HEIGHT = 720,
      WINDOW_ICON = None,
      WINDOW_ID_UNIQUE = uuid4,
      WINDOW_ID_PERSISTENT = ''default'',
      GROUP_UNIQUE_WINDOWS_IN_TASKBAR = True,
      IMGUI_USE_INI = True,
      IMGUI_INI_DIR = Path [tempdir, ''amgui''],
      GLFW_CONTEXT_VERSION_MAJOR = 3,
      GLFW_CONTEXT_VERSION_MINOR = 3,
      GLFW_OPENGL_PROFILE = 204801,
      GL_CLEAR_COLOUR = (0, 0, 0, 1),
      overrides = (\<lambda>h. False)\<rparr>"

text \<open>The instance: its class and the two handles \<^verbatim>\<open>__init__\<close> stores.\<close>

record Window =
  cls :: Window_class
  window :: val
  renderer :: val

text \<open>
  Calling a hook enters it and runs its body: the subclass's where it overrides the hook,
  the base class's otherwise.
\<close>

definition pre_init :: "world \<Rightarrow> Window_class \<Rightarrow> val prog" where
  "pre_init w c =
     and_then (enter PreInit) (\<lambda>_.
     if overrides c PreInit then ext w (Override PreInit) else ret VNone)"

definition post_init :: "world \<Rightarrow> Window_class \<Rightarrow> val prog" where
  "post_init w c =
     and_then (enter PostInit) (\<lambda>_.
     if overrides c PostInit then ext w (Override PostInit) else ret VNone)"

definition imgui_ini_path :: "Window_class \<Rightarrow> path" where
  "imgui_ini_path c = Div (IMGUI_INI_DIR c) (WINDOW_ID_PERSISTENT c @ ''.ini'')"

definition pre_exit_loop :: "world \<Rightarrow> Window_class \<Rightarrow> val prog" where
  "pre_exit_loop w c =
     and_then (enter PreExitLoop) (\<lambda>_.
     if overrides c PreExitLoop then ext w (Override PreExitLoop)
     else ext w (ImguiSaveIniSettingsToDisk (imgui_ini_path c)))"

definition post_exit_loop :: "world \<Rightarrow> Window_class \<Rightarrow> val prog" where
  "post_exit_loop w c =
     and_then (enter PostExitLoop) (\<lambda>_.
     if overrides c PostExitLoop then ext w (Override PostExitLoop) else ret VNone)"

text \<open>
  \<^verbatim>\<open>ctypes.windll\<close> exists on Windows only: elsewhere reading the attribute raises
  \<^verbatim>\<open>AttributeError\<close> before anything is called. The platform decides that, not the
  libraries; the failed read is recorded as the event \<open>Ext CtypesWindll (Raise AttributeError)\<close>.
\<close>

definition windll_shell32 :: "platform \<Rightarrow> world \<Rightarrow> call \<Rightarrow> val prog" where
  "windll_shell32 plat w c =
     (if plat = Windows then ext w c
      else (\<lambda>h. (Inl (Raised AttributeError), [Ext CtypesWindll (Raise AttributeError)])))"

text \<open>\<^verbatim>\<open>Window._init_glfw\<close>, statement by statement.\<close>

definition init_glfw :: "platform \<Rightarrow> world \<Rightarrow> Window_class \<Rightarrow> (val \<times> val) prog" where
  "init_glfw plat w c =
     and_then (ext w GlfwInit) (\<lambda>ok.
     and_then (if \<not> truthy ok
               then and_then (ext w (LoggerCritical ''Could not initialize OpenGL context''))
                      (\<lambda>_. exit_py 1)
               else ret VNone) (\<lambda>_.
     and_then (if GROUP_UNIQUE_WINDOWS_IN_TASKBAR c
               then windll_shell32 plat w
                      (SetCurrentProcessExplicitAppUserModelID (WINDOW_ID_PERSISTENT c))
               else windll_shell32 plat w
                      (SetCurrentProcessExplicitAppUserModelID (WINDOW_ID_UNIQUE c))) (\<lambda>_.
     and_then (ext w (GlfwWindowHint CONTEXT_VERSION_MAJOR (GLFW_CONTEXT_VERSION_MAJOR c))) (\<lambda>_.
     and_then (ext w (GlfwWindowHint CONTEXT_VERSION_MINOR (GLFW_CONTEXT_VERSION_MINOR c))) (\<lambda>_.
     and_then (ext w (GlfwWindowHint OPENGL_PROFILE (GLFW_OPENGL_PROFILE c))) (\<lambda>_.
     and_then (ext w (GlfwWindowHint OPENGL_FORWARD_COMPAT 1)) (\<lambda>_.
     and_then (ext w (GlfwCreateWindow (WINDOW_WIDTH c) (WINDOW_HEIGHT c) (WINDOW_TITLE c)))
       (\<lambda>win.
     and_then (ext w (GlfwMakeContextCurrent win)) (\<lambda>_.
     and_then (case WINDOW_ICON c of
                 None \<Rightarrow> ret VNone
               | Some icon \<Rightarrow>
                   ext w (GlfwSetWindowIcon win (length (glfw_images icon)) (glfw_images icon)))
       (\<lambda>_.
     and_then (if \<not> truthy win
               then and_then (ext w GlfwTerminate) (\<lambda>_.
                    and_then (ext w (LoggerCritical ''Could not initialize Window''))
                      (\<lambda>_. exit_py 1))
               else ret VNone) (\<lambda>_.
     and_then (ext w ImguiCreateContext) (\<lambda>_.
     and_then (ext w (OsMakedirs (IMGUI_INI_DIR c))) (\<lambda>_.
     and_then (if IMGUI_USE_INI c
               then and_then (ext w (Print [PPath (imgui_ini_path c), PType ''str''])) (\<lambda>_.
                    and_then (ext w (ImguiSetIniFileName (Some (imgui_ini_path c)))) (\<lambda>_.
                    ext w (ImguiLoadIniSettingsFromDisk (imgui_ini_path c))))
               else ext w (ImguiSetIniFileName None)) (\<lambda>_.
     and_then (ext w (NewGlfwRenderer win)) (\<lambda>ren.
     and_then (case GL_CLEAR_COLOUR c of (r, g, b, a) \<Rightarrow> ext w (GlClearColor r g b a)) (\<lambda>_.
     ret (win, ren)))))))))))))))))"

text \<open>\<^verbatim>\<open>Window._draw\<close>: one frame.\<close>

definition priv_draw :: "world \<Rightarrow> Window \<Rightarrow> val prog" where
  "priv_draw w self =
     and_then (ext w ImguiNewFrame) (\<lambda>_.
     and_then (ext w DrawBody) (\<lambda>_.
     and_then (case GL_CLEAR_COLOUR (cls self) of (r, g, b, a) \<Rightarrow> ext w (GlClearColor r g b a))
       (\<lambda>_.
     and_then (ext w GlClear) (\<lambda>_.
     and_then (ext w ImguiRender) (\<lambda>_.
     and_then (try_except_AttributeError
                 (and_then (ext w (GetattrRender (renderer self))) (\<lambda>_.
                  and_then (ext w ImguiGetDrawData) (\<lambda>data.
                  ext w (RendererRender (renderer self) data))))) (\<lambda>_.
     ext w (GlfwSwapBuffers (window self))))))))"

text \<open>\<^verbatim>\<open>Window._resize_event\<close>, the refresh callback handed to GLFW.\<close>

definition resize_event :: "world \<Rightarrow> Window \<Rightarrow> val \<Rightarrow> val prog" where
  "resize_event w self win =
     and_then (enter ResizeEvent) (\<lambda>_.
     if overrides (cls self) ResizeEvent then ext w (Override ResizeEvent)
     else priv_draw w self)"

text \<open>
  \<^verbatim>\<open>glfw.poll_events()\<close>: GLFW calls the refresh callback as often as the libraries say,
  then returns. An exception out of the callback comes out of \<^verbatim>\<open>poll_events\<close> (pyGLFW
  raises it again there and runs no further callback).
\<close>

fun refresh_callbacks :: "nat \<Rightarrow> world \<Rightarrow> Window \<Rightarrow> val prog" where
  "refresh_callbacks 0 w self = ret VNone"
| "refresh_callbacks (Suc k) w self =
     and_then (resize_event w self (window self)) (\<lambda>_. refresh_callbacks k w self)"

definition poll_events :: "world \<Rightarrow> Window \<Rightarrow> val prog" where
  "poll_events w self h =
     and_then (refresh_callbacks (refreshes w h) w self) (\<lambda>_. ext w GlfwPollEvents) h"

text \<open>The body of the \<^verbatim>\<open>while\<close> loop of \<^verbatim>\<open>Window._glfw_loop\<close>.\<close>

definition loop_body :: "world \<Rightarrow> Window \<Rightarrow> val prog" where
  "loop_body w self =
     and_then (poll_events w self) (\<lambda>_.
     and_then (ext w (RendererProcessInputs (renderer self))) (\<lambda>_.
     and_then (ext w ImguiWantSaveIniSettings) (\<lambda>wants.
     and_then (if truthy wants then ext w (Print [PStr ''wants to save!'']) else ret VNone) (\<lambda>_.
     priv_draw w self))))"

text \<open>
  The \<^verbatim>\<open>while\<close> loop itself. It may run forever, so it takes fuel, one unit per test of
  the condition, and \<open>None\<close> says the fuel ran out with the loop still running.
\<close>

fun glfw_while :: "nat \<Rightarrow> world \<Rightarrow> Window \<Rightarrow> event list \<Rightarrow> ((abort + val) \<times> event list) option"
where
  "glfw_while 0 w self h = None"
| "glfw_while (Suc fuel) w self h =
     (case ext w (GlfwWindowShouldClose (window self)) h of
        (Inl a, n1) \<Rightarrow> Some (Inl a, n1)
      | (Inr closing, n1) \<Rightarrow>
          if \<not> truthy closing
          then (case loop_body w self (h @ n1) of
                  (Inl a, n2) \<Rightarrow> Some (Inl a, n1 @ n2)
                | (Inr _, n2) \<Rightarrow>
                    (case glfw_while fuel w self (h @ n1 @ n2) of
                       None \<Rightarrow> None
                     | Some (r, n3) \<Rightarrow> Some (r, n1 @ n2 @ n3)))
          else Some (Inr VNone, n1))"

text \<open>What \<^verbatim>\<open>Window._glfw_loop\<close> does once the loop has ended.\<close>

definition after_loop :: "world \<Rightarrow> Window \<Rightarrow> val prog" where
  "after_loop w self =
     and_then (pre_exit_loop w (cls self)) (\<lambda>_.
     and_then (ext w (RendererShutdown (renderer self))) (\<lambda>_.
     and_then (ext w GlfwTerminate) (\<lambda>_.
     ret VNone)))"

text \<open>A fuelled piece of code, then an ordinary one.\<close>

definition then_run ::
  "(event list \<Rightarrow> ((abort + 'a) \<times> event list) option) \<Rightarrow> ('a \<Rightarrow> 'b prog) \<Rightarrow>
   event list \<Rightarrow> ((abort + 'b) \<times> event list) option" where
  "then_run m f h =
     (case m h of
        None \<Rightarrow> None
      | Some (Inl a, n1) \<Rightarrow> Some (Inl a, n1)
      | Some (Inr x, n1) \<Rightarrow> (case f x (h @ n1) of (r, n2) \<Rightarrow> Some (r, n1 @ n2)))"

definition glfw_loop ::
  "nat \<Rightarrow> world \<Rightarrow> Window \<Rightarrow> event list \<Rightarrow> ((abort + val) \<times> event list) option" where
  "glfw_loop fuel w self = then_run (glfw_while fuel w self) (\<lambda>_. after_loop w self)"

text \<open>The part of \<^verbatim>\<open>Window.__init__\<close> before the loop; it gives the instance.\<close>

definition init_head :: "platform \<Rightarrow> world \<Rightarrow> Window_class \<Rightarrow> Window prog" where
  "init_head plat w c =
     and_then (pre_init w c) (\<lambda>_.
     and_then (init_glfw plat w c) (\<lambda>(win, ren).
     and_then (ext w (GlfwSetWindowRefreshCallback win)) (\<lambda>_.
     and_then (post_init w c) (\<lambda>_.
     ret \<lparr>cls = c, window = win, renderer = ren\<rparr>))))"

text \<open>An ordinary piece of code, then a fuelled one.\<close>

definition run_then ::
  "'a prog \<Rightarrow> ('a \<Rightarrow> event list \<Rightarrow> ((abort + 'b) \<times> event list) option) \<Rightarrow>
   event list \<Rightarrow> ((abort + 'b) \<times> event list) option" where
  "run_then m f h =
     (case m h of
        (Inl a, n1) \<Rightarrow> Some (Inl a, n1)
      | (Inr x, n1) \<Rightarrow>
          (case f x (h @ n1) of None \<Rightarrow> None | Some (r, n2) \<Rightarrow> Some (r, n1 @ n2)))"

text \<open>\<^verbatim>\<open>Window.__init__\<close>: constructing a window runs it until it is closed.\<close>

definition Window_init ::
  "nat \<Rightarrow> platform \<Rightarrow> world \<Rightarrow> Window_class \<Rightarrow> event list \<Rightarrow>
   ((abort + val) \<times> event list) option" where
  "Window_init fuel plat w c = run_then (init_head plat w c) (\<lambda>self. glfw_loop fuel w self)"

section \<open>What the claims speak of\<close>

subsection \<open>Calls, answers and outcomes\<close>

text \<open>The calls of a trace, in order, without their answers.\<close>

fun calls :: "event list \<Rightarrow> call list" where
  "calls [] = []"
| "calls (Ext c r # n) = c # calls n"
| "calls (Enter k # n) = calls n"

text \<open>Call \<open>c\<close> was made and came back with a false value: a failed library call.\<close>

definition failed :: "call \<Rightarrow> event list \<Rightarrow> bool" where
  "failed c n = (\<exists>v. Ext c (Ret v) \<in> set n \<and> \<not> truthy v)"

text \<open>The code ended because a callee raised.\<close>

fun raised :: "abort + 'a \<Rightarrow> bool" where
  "raised (Inl (Raised e)) = True"
| "raised (Inl (Exit k)) = False"
| "raised (Inr x) = False"

text \<open>The call that sets the window icon, when the class has one.\<close>

definition icon_calls :: "Window_class \<Rightarrow> val \<Rightarrow> call list" where
  "icon_calls c win =
     (case WINDOW_ICON c of
        None \<Rightarrow> []
      | Some icon \<Rightarrow> [GlfwSetWindowIcon win (length (glfw_images icon)) (glfw_images icon)])"

text \<open>How often hook \<open>k\<close> was entered.\<close>

definition entered :: "hook \<Rightarrow> event list \<Rightarrow> nat" where
  "entered k n = count_list n (Enter k)"

subsection \<open>Phases\<close>

text \<open>
  The phase a call belongs to: 1 the windowing library and the window, 2 the GUI context
  and what hangs on it, 3 the poll/draw loop, 4 the renderer's shutdown, 5 the windowing
  library's termination. A call made in more than one phase, or one that belongs to none,
  has no phase.
\<close>

definition phase_of_call :: "call \<Rightarrow> nat option" where
  "phase_of_call c =
     (case c of
        GlfwInit \<Rightarrow> Some 1
      | CtypesWindll \<Rightarrow> Some 1
      | SetCurrentProcessExplicitAppUserModelID _ \<Rightarrow> Some 1
      | GlfwWindowHint _ _ \<Rightarrow> Some 1
      | GlfwCreateWindow _ _ _ \<Rightarrow> Some 1
      | GlfwMakeContextCurrent _ \<Rightarrow> Some 1
      | GlfwSetWindowIcon _ _ _ \<Rightarrow> Some 1
      | ImguiCreateContext \<Rightarrow> Some 2
      | OsMakedirs _ \<Rightarrow> Some 2
      | ImguiSetIniFileName _ \<Rightarrow> Some 2
      | ImguiLoadIniSettingsFromDisk _ \<Rightarrow> Some 2
      | NewGlfwRenderer _ \<Rightarrow> Some 2
      | GlfwWindowShouldClose _ \<Rightarrow> Some 3
      | GlfwPollEvents \<Rightarrow> Some 3
      | RendererProcessInputs _ \<Rightarrow> Some 3
      | ImguiWantSaveIniSettings \<Rightarrow> Some 3
      | ImguiNewFrame \<Rightarrow> Some 3
      | DrawBody \<Rightarrow> Some 3
      | GlClear \<Rightarrow> Some 3
      | ImguiRender \<Rightarrow> Some 3
      | GetattrRender _ \<Rightarrow> Some 3
      | ImguiGetDrawData \<Rightarrow> Some 3
      | RendererRender _ _ \<Rightarrow> Some 3
      | GlfwSwapBuffers _ \<Rightarrow> Some 3
      | RendererShutdown _ \<Rightarrow> Some 4
      | GlfwTerminate \<Rightarrow> Some 5
      | _ \<Rightarrow> None)"

fun phases :: "event list \<Rightarrow> nat list" where
  "phases [] = []"
| "phases (Ext c r # n) = (case phase_of_call c of Some p \<Rightarrow> p # phases n | None \<Rightarrow> phases n)"
| "phases (Enter k # n) = phases n"

subsection \<open>The loop's condition\<close>

text \<open>The answers to \<^verbatim>\<open>glfw.window_should_close\<close>, in order.\<close>

fun tests :: "event list \<Rightarrow> resp list" where
  "tests [] = []"
| "tests (Ext c r # n) =
     (case c of GlfwWindowShouldClose _ \<Rightarrow> r # tests n | _ \<Rightarrow> tests n)"
| "tests (Enter k # n) = tests n"

text \<open>
  The answer is a false value (the should-close flag is unset, a library call failed), or
  it is a true one.
\<close>

fun unset :: "resp \<Rightarrow> bool" where
  "unset (Ret a) = (\<not> truthy a)"
| "unset (Raise e) = False"

fun is_set :: "resp \<Rightarrow> bool" where
  "is_set (Ret a) = truthy a"
| "is_set (Raise e) = False"

subsection \<open>Traces and the libraries\<close>

text \<open>
  Every answer in the trace \<open>n\<close>, which starts after the events \<open>h\<close>, is the answer the
  libraries give at that point; the failed read of \<^verbatim>\<open>ctypes.windll\<close> is the platform's.
\<close>

fun answered_by :: "platform \<Rightarrow> world \<Rightarrow> event list \<Rightarrow> event list \<Rightarrow> bool" where
  "answered_by plat w h [] = True"
| "answered_by plat w h (Ext c r # n) =
     ((if c = CtypesWindll then plat \<noteq> Windows \<and> r = Raise AttributeError
       else r = answer w h c) \<and>
      answered_by plat w (h @ [Ext c r]) n)"
| "answered_by plat w h (Enter k # n) = answered_by plat w (h @ [Enter k]) n"

text \<open>
  Libraries that oblige: the platform is Windows, no call raises, GLFW starts, windows can
  be made, and the should-close flag is set once \<open>k\<close> polls have been made.
\<close>

definition never_raises :: "world \<Rightarrow> bool" where
  "never_raises w = (\<forall>h c. \<exists>v. answer w h c = Ret v)"

definition closes_after :: "nat \<Rightarrow> world \<Rightarrow> bool" where
  "closes_after k w =
     (\<forall>h win. k \<le> count_list (calls h) GlfwPollEvents \<longrightarrow>
        is_set (answer w h (GlfwWindowShouldClose win)))"

definition obliging :: "platform \<Rightarrow> world \<Rightarrow> nat \<Rightarrow> bool" where
  "obliging plat w k =
     (plat = Windows \<and> never_raises w \<and>
      (\<forall>h. is_set (answer w h GlfwInit)) \<and>
      (\<forall>h x y t. is_set (answer w h (GlfwCreateWindow x y t))) \<and>
      closes_after k w)"

subsection \<open>What is written outside the process\<close>

datatype artifact = File path | Directory path | Stdout | Log

text \<open>
  What a call of this code writes: imgui's settings file, a directory, a line on standard
  output, a log record. (What a subclass's own methods write is theirs.)
\<close>

definition writes :: "call \<Rightarrow> artifact option" where
  "writes c =
     (case c of
        ImguiSaveIniSettingsToDisk p \<Rightarrow> Some (File p)
      | OsMakedirs p \<Rightarrow> Some (Directory p)
      | Print _ \<Rightarrow> Some Stdout
      | LoggerCritical _ \<Rightarrow> Some Log
      | _ \<Rightarrow> None)"

text \<open>The artifacts of a trace, in order.\<close>

fun artifacts :: "event list \<Rightarrow> artifact list" where
  "artifacts [] = []"
| "artifacts (Ext c r # n) = (case writes c of Some a \<Rightarrow> a # artifacts n | None \<Rightarrow> artifacts n)"
| "artifacts (Enter k # n) = artifacts n"

subsection \<open>Exceptions\<close>

text \<open>
  The raise the \<^verbatim>\<open>try\<close> statement of \<^verbatim>\<open>_draw\<close> is there for: an
  \<^verbatim>\<open>AttributeError\<close> out of the lookup of the renderer's \<^verbatim>\<open>render\<close>, out of
  \<^verbatim>\<open>imgui.get_draw_data()\<close> or out of \<^verbatim>\<open>render\<close> itself.
\<close>

definition in_draw_try :: "call \<Rightarrow> exn \<Rightarrow> bool" where
  "in_draw_try c e =
     (e = AttributeError \<and>
      (case c of
         GetattrRender _ \<Rightarrow> True
       | ImguiGetDrawData \<Rightarrow> True
       | RendererRender _ _ \<Rightarrow> True
       | _ \<Rightarrow> False))"

text \<open>
  \<open>propagates H r n\<close>: every raise in the trace \<open>n\<close> that \<open>H\<close> does not cover is the last
  event of the trace and is how the code ended, and code that ended with an exception ended
  with such a raise.
\<close>

fun propagates :: "(call \<Rightarrow> exn \<Rightarrow> bool) \<Rightarrow> abort + 'a \<Rightarrow> event list \<Rightarrow> bool" where
  "propagates H r [] = (\<not> raised r)"
| "propagates H r (Ext c (Raise e) # n) =
     (if H c e then propagates H r n else n = [] \<and> r = Inl (Raised e))"
| "propagates H r (Ext c (Ret v) # n) = propagates H r n"
| "propagates H r (Enter k # n) = propagates H r n"

text \<open>
  Every raise in the trace that \<^verbatim>\<open>_draw\<close>'s \<^verbatim>\<open>try\<close> covers is followed at once by the
  statement after that \<^verbatim>\<open>try\<close>, \<^verbatim>\<open>glfw.swap_buffers\<close>: the frame goes on.
\<close>

fun covered_raise :: "event \<Rightarrow> bool" where
  "covered_raise (Ext c (Raise e)) = in_draw_try c e"
| "covered_raise (Ext c (Ret v)) = False"
| "covered_raise (Enter k) = False"

fun is_swap :: "event \<Rightarrow> bool" where
  "is_swap (Ext c r) = (case c of GlfwSwapBuffers _ \<Rightarrow> True | _ \<Rightarrow> False)"
| "is_swap (Enter k) = False"

fun resumes :: "event list \<Rightarrow> bool" where
  "resumes [] = True"
| "resumes (ev # n) =
     ((if covered_raise ev then (case n of [] \<Rightarrow> False | ev' # _ \<Rightarrow> is_swap ev') else True) \<and>
      resumes n)"

text \<open>No handler at all.\<close>

definition no_handler :: "call \<Rightarrow> exn \<Rightarrow> bool" where
  "no_handler c e = False"

subsection \<open>Judgements on pieces of code\<close>

text \<open>Every event the code adds satisfies \<open>Q\<close>.\<close>

definition emits :: "(event \<Rightarrow> bool) \<Rightarrow> 'a prog \<Rightarrow> bool" where
  "emits Q m = (\<forall>h r n. m h = (r, n) \<longrightarrow> list_all Q n)"

text \<open>Exceptions propagate out of the code, but for those the \<^verbatim>\<open>try\<close> in \<^verbatim>\<open>_draw\<close> covers.\<close>

definition passes_on :: "'a prog \<Rightarrow> bool" where
  "passes_on m = (\<forall>h r n. m h = (r, n) \<longrightarrow> propagates in_draw_try r n)"

text \<open>Where the code caught a raise, it went on with the frame.\<close>

definition steady :: "'a prog \<Rightarrow> bool" where
  "steady m = (\<forall>h r n. m h = (r, n) \<longrightarrow> resumes n)"

text \<open>The code records the libraries' answers as they are.\<close>

definition faithful :: "platform \<Rightarrow> world \<Rightarrow> 'a prog \<Rightarrow> bool" where
  "faithful plat w m = (\<forall>h r n. m h = (r, n) \<longrightarrow> answered_by plat w h n)"

text \<open>
  The phases of the code's events go up, start at \<open>lo\<close> or later and, when the code
  returns, have not gone beyond \<open>hi\<close>.
\<close>

definition climbs :: "nat \<Rightarrow> nat \<Rightarrow> 'a prog \<Rightarrow> bool" where
  "climbs lo hi m =
     (\<forall>h r n. m h = (r, n) \<longrightarrow>
        sorted (phases n) \<and> (\<forall>p \<in> set (phases n). lo \<le> p) \<and>
        (\<forall>x. r = Inr x \<longrightarrow> (\<forall>p \<in> set (phases n). p \<le> hi)))"

subsection \<open>The events of each part of a construction\<close>

text \<open>
  The events the setup (\<^verbatim>\<open>__init__\<close> up to the loop) can add for a class, those the loop
  can add, and those of the way out.
\<close>

definition setup_event :: "Window_class \<Rightarrow> event \<Rightarrow> bool" where
  "setup_event c ev =
     (case ev of
        Enter k \<Rightarrow> k = PreInit \<or> k = PostInit
      | Ext cl r \<Rightarrow>
          (case cl of
             Override k \<Rightarrow> (k = PreInit \<or> k = PostInit) \<and> overrides c k
           | GlfwInit \<Rightarrow> True
           | LoggerCritical msg \<Rightarrow>
               msg = ''Could not initialize OpenGL context'' \<or>
               msg = ''Could not initialize Window''
           | CtypesWindll \<Rightarrow> True
           | SetCurrentProcessExplicitAppUserModelID i \<Rightarrow>
               i = (if GROUP_UNIQUE_WINDOWS_IN_TASKBAR c
                    then WINDOW_ID_PERSISTENT c else WINDOW_ID_UNIQUE c)
           | GlfwWindowHint _ _ \<Rightarrow> True
           | GlfwCreateWindow x y t \<Rightarrow>
               x = WINDOW_WIDTH c \<and> y = WINDOW_HEIGHT c \<and> t = WINDOW_TITLE c
           | GlfwMakeContextCurrent _ \<Rightarrow> True
           | GlfwSetWindowIcon _ k imgs \<Rightarrow>
               (case WINDOW_ICON c of
                  None \<Rightarrow> False
                | Some icon \<Rightarrow> imgs = glfw_images icon \<and> k = length imgs)
           | GlfwTerminate \<Rightarrow> True
           | ImguiCreateContext \<Rightarrow> True
           | OsMakedirs p \<Rightarrow> p = IMGUI_INI_DIR c
           | Print xs \<Rightarrow> IMGUI_USE_INI c \<and> xs = [PPath (imgui_ini_path c), PType ''str'']
           | ImguiSetIniFileName p \<Rightarrow>
               p = (if IMGUI_USE_INI c then Some (imgui_ini_path c) else None)
           | ImguiLoadIniSettingsFromDisk p \<Rightarrow> IMGUI_USE_INI c \<and> p = imgui_ini_path c
           | NewGlfwRenderer _ \<Rightarrow> True
           | GlClearColor r g b a \<Rightarrow> (r, g, b, a) = GL_CLEAR_COLOUR c
           | GlfwSetWindowRefreshCallback _ \<Rightarrow> True
           | _ \<Rightarrow> False))"

definition loop_event :: "Window_class \<Rightarrow> event \<Rightarrow> bool" where
  "loop_event c ev =
     (case ev of
        Enter k \<Rightarrow> k = ResizeEvent
      | Ext cl r \<Rightarrow>
          (case cl of
             Override k \<Rightarrow> k = ResizeEvent \<and> overrides c k
           | GlfwWindowShouldClose _ \<Rightarrow> True
           | GlfwPollEvents \<Rightarrow> True
           | RendererProcessInputs _ \<Rightarrow> True
           | ImguiWantSaveIniSettings \<Rightarrow> True
           | Print xs \<Rightarrow> xs = [PStr ''wants to save!'']
           | ImguiNewFrame \<Rightarrow> True
           | DrawBody \<Rightarrow> True
           | GlClearColor r g b a \<Rightarrow> (r, g, b, a) = GL_CLEAR_COLOUR c
           | GlClear \<Rightarrow> True
           | ImguiRender \<Rightarrow> True
           | GetattrRender _ \<Rightarrow> True
           | ImguiGetDrawData \<Rightarrow> True
           | RendererRender _ _ \<Rightarrow> True
           | GlfwSwapBuffers _ \<Rightarrow> True
           | _ \<Rightarrow> False))"

definition teardown_event :: "Window_class \<Rightarrow> event \<Rightarrow> bool" where
  "teardown_event c ev =
     (case ev of
        Enter k \<Rightarrow> k = PreExitLoop
      | Ext cl r \<Rightarrow>
          (case cl of
             Override k \<Rightarrow> k = PreExitLoop \<and> overrides c k
           | ImguiSaveIniSettingsToDisk p \<Rightarrow>
               \<not> overrides c PreExitLoop \<and> p = imgui_ini_path c
           | RendererShutdown _ \<Rightarrow> True
           | GlfwTerminate \<Rightarrow> True
           | _ \<Rightarrow> False))"

definition window_event :: "Window_class \<Rightarrow> event \<Rightarrow> bool" where
  "window_event c ev = (setup_event c ev \<or> loop_event c ev \<or> teardown_event c ev)"

section \<open>Sample classes and libraries\<close>

text \<open>
  Libraries that work: GLFW starts, the window is handle 1, the renderer object 2, the
  window is asked to close once \<open>frames\<close> polls have been made, and GLFW calls the refresh
  callback \<open>redraws\<close> times in each poll.
\<close>

definition demo_answer :: "nat \<Rightarrow> event list \<Rightarrow> call \<Rightarrow> resp" where
  "demo_answer frames h c =
     (case c of
        GlfwInit \<Rightarrow> Ret (VInt 1)
      | GlfwCreateWindow _ _ _ \<Rightarrow> Ret (VPtr 1)
      | NewGlfwRenderer _ \<Rightarrow> Ret (VObj 2)
      | GlfwWindowShouldClose _ \<Rightarrow>
          Ret (VInt (if frames \<le> count_list (calls h) GlfwPollEvents then 1 else 0))
      | ImguiWantSaveIniSettings \<Rightarrow> Ret (VBool False)
      | ImageOpen p \<Rightarrow> Ret (VObj (length p))
      | _ \<Rightarrow> Ret VNone)"

definition demo_world :: "nat \<Rightarrow> nat \<Rightarrow> world" where
  "demo_world frames redraws = \<lparr>answer = demo_answer frames, refreshes = (\<lambda>h. redraws)\<rparr>"

text \<open>The same libraries, but for one call, which is answered with \<open>r\<close>.\<close>

definition answering :: "call \<Rightarrow> resp \<Rightarrow> world \<Rightarrow> world" where
  "answering c r w = w\<lparr>answer := (\<lambda>h c'. if c' = c then r else answer w h c')\<rparr>"

text \<open>
  GLFW does not start; no window can be made; the renderer has no \<^verbatim>\<open>render\<close>; no image
  file can be opened.
\<close>

definition no_glfw_world :: world where
  "no_glfw_world = answering GlfwInit (Ret (VInt 0)) (demo_world 0 0)"

definition no_window_world :: world where
  "no_window_world = answering (GlfwCreateWindow 1280 720 []) (Ret (VPtr 0)) (demo_world 0 0)"

definition stale_renderer_world :: world where
  "stale_renderer_world =
     answering (GetattrRender (VObj 2)) (Raise AttributeError) (demo_world 1 0)"

text \<open>
  The base class with a \<^verbatim>\<open>draw\<close>, the same with the settings file switched off, and the
  same with an icon.
\<close>

definition demo_class :: Window_class where
  "demo_class = Window_base ''/tmp'' ''5f0c''"

definition demo_self :: Window where
  "demo_self = \<lparr>cls = demo_class, window = VPtr 1, renderer = VObj 2\<rparr>"

definition no_ini_class :: Window_class where
  "no_ini_class = demo_class\<lparr>IMGUI_USE_INI := False\<rparr>"

definition icon_class :: Window_class where
  "icon_class = demo_class\<lparr>WINDOW_ICON := Some \<lparr>images = [VObj 5]\<rparr>\<rparr>"

text \<open>
  What these sample runs leave in the trace: the setup of \<^verbatim>\<open>_init_glfw\<close> with the working
  libraries, one \<^verbatim>\<open>_draw\<close> (with what its \<^verbatim>\<open>try\<close> statement did), and the way out of the
  loop.
\<close>

definition demo_ini :: path where
  "demo_ini = Div (Path [''/tmp'', ''amgui'']) ''default.ini''"

definition setup_trace :: "event list" where
  "setup_trace =
     [Ext GlfwInit (Ret (VInt 1)),
      Ext (SetCurrentProcessExplicitAppUserModelID ''default'') (Ret VNone),
      Ext (GlfwWindowHint CONTEXT_VERSION_MAJOR 3) (Ret VNone),
      Ext (GlfwWindowHint CONTEXT_VERSION_MINOR 3) (Ret VNone),
      Ext (GlfwWindowHint OPENGL_PROFILE 204801) (Ret VNone),
      Ext (GlfwWindowHint OPENGL_FORWARD_COMPAT 1) (Ret VNone),
      Ext (GlfwCreateWindow 1280 720 []) (Ret (VPtr 1)),
      Ext (GlfwMakeContextCurrent (VPtr 1)) (Ret VNone),
      Ext ImguiCreateContext (Ret VNone),
      Ext (OsMakedirs (Path [''/tmp'', ''amgui''])) (Ret VNone),
      Ext (Print [PPath demo_ini, PType ''str'']) (Ret VNone),
      Ext (ImguiSetIniFileName (Some demo_ini)) (Ret VNone),
      Ext (ImguiLoadIniSettingsFromDisk demo_ini) (Ret VNone),
      Ext (NewGlfwRenderer (VPtr 1)) (Ret (VObj 2)),
      Ext (GlClearColor 0 0 0 1) (Ret VNone)]"

definition rendered :: "event list" where
  "rendered =
     [Ext (GetattrRender (VObj 2)) (Ret VNone),
      Ext ImguiGetDrawData (Ret VNone),
      Ext (RendererRender (VObj 2) VNone) (Ret VNone)]"

definition not_rendered :: "event list" where
  "not_rendered = [Ext (GetattrRender (VObj 2)) (Raise AttributeError)]"

definition draw_trace :: "event list \<Rightarrow> event list" where
  "draw_trace tried =
     [Ext ImguiNewFrame (Ret VNone),
      Ext DrawBody (Ret VNone),
      Ext (GlClearColor 0 0 0 1) (Ret VNone),
      Ext GlClear (Ret VNone),
      Ext ImguiRender (Ret VNone)] @ tried @
     [Ext (GlfwSwapBuffers (VPtr 1)) (Ret VNone)]"

definition frame_trace :: "event list \<Rightarrow> event list" where
  "frame_trace tried =
     [Ext (GlfwWindowShouldClose (VPtr 1)) (Ret (VInt 0)),
      Ext GlfwPollEvents (Ret VNone),
      Ext (RendererProcessInputs (VObj 2)) (Ret VNone),
      Ext ImguiWantSaveIniSettings (Ret (VBool False))] @ draw_trace tried"

text \<open>One pass through the loop during which GLFW calls the refresh callback once.\<close>

definition resized_frame_trace :: "event list" where
  "resized_frame_trace =
     [Ext (GlfwWindowShouldClose (VPtr 1)) (Ret (VInt 0)), Enter ResizeEvent] @
     draw_trace rendered @
     [Ext GlfwPollEvents (Ret VNone),
      Ext (RendererProcessInputs (VObj 2)) (Ret VNone),
      Ext ImguiWantSaveIniSettings (Ret (VBool False))] @ draw_trace rendered"

definition closing_trace :: "event list" where
  "closing_trace =
     [Ext (GlfwWindowShouldClose (VPtr 1)) (Ret (VInt 1)),
      Enter PreExitLoop,
      Ext (ImguiSaveIniSettingsToDisk demo_ini) (Ret VNone),
      Ext (RendererShutdown (VObj 2)) (Ret VNone),
      Ext GlfwTerminate (Ret VNone)]"

definition window_trace :: "event list \<Rightarrow> event list" where
  "window_trace tried =
     Enter PreInit # setup_trace @
     [Ext (GlfwSetWindowRefreshCallback (VPtr 1)) (Ret VNone), Enter PostInit] @
     frame_trace tried @ closing_trace"

text \<open>The same construction with the settings file switched off and the window closed at once.\<close>

definition no_ini_trace :: "event list" where
  "no_ini_trace =
     [Enter PreInit,
      Ext GlfwInit (Ret (VInt 1)),
      Ext (SetCurrentProcessExplicitAppUserModelID ''default'') (Ret VNone),
      Ext (GlfwWindowHint CONTEXT_VERSION_MAJOR 3) (Ret VNone),
      Ext (GlfwWindowHint CONTEXT_VERSION_MINOR 3) (Ret VNone),
      Ext (GlfwWindowHint OPENGL_PROFILE 204801) (Ret VNone),
      Ext (GlfwWindowHint OPENGL_FORWARD_COMPAT 1) (Ret VNone),
      Ext (GlfwCreateWindow 1280 720 []) (Ret (VPtr 1)),
      Ext (GlfwMakeContextCurrent (VPtr 1)) (Ret VNone),
      Ext ImguiCreateContext (Ret VNone),
      Ext (OsMakedirs (Path [''/tmp'', ''amgui''])) (Ret VNone),
      Ext (ImguiSetIniFileName None) (Ret VNone),
      Ext (NewGlfwRenderer (VPtr 1)) (Ret (VObj 2)),
      Ext (GlClearColor 0 0 0 1) (Ret VNone),
      Ext (GlfwSetWindowRefreshCallback (VPtr 1)) (Ret VNone),
      Enter PostInit] @ closing_trace"

text \<open>The two setups that give up.\<close>

definition no_glfw_trace :: "event list" where
  "no_glfw_trace =
     [Ext GlfwInit (Ret (VInt 0)),
      Ext (LoggerCritical ''Could not initialize OpenGL context'') (Ret VNone)]"

definition no_window_trace :: "event list" where
  "no_window_trace =
     [Ext GlfwInit (Ret (VInt 1)),
      Ext (SetCurrentProcessExplicitAppUserModelID ''default'') (Ret VNone),
      Ext (GlfwWindowHint CONTEXT_VERSION_MAJOR 3) (Ret VNone),
      Ext (GlfwWindowHint CONTEXT_VERSION_MINOR 3) (Ret VNone),
      Ext (GlfwWindowHint OPENGL_PROFILE 204801) (Ret VNone),
      Ext (GlfwWindowHint OPENGL_FORWARD_COMPAT 1) (Ret VNone),
      Ext (GlfwCreateWindow 1280 720 []) (Ret (VPtr 0)),
      Ext (GlfwMakeContextCurrent (VPtr 0)) (Ret VNone),
      Ext (GlfwSetWindowIcon (VPtr 0) 1 [VObj 5]) (Ret VNone),
      Ext GlfwTerminate (Ret VNone),
      Ext (LoggerCritical ''Could not initialize Window'') (Ret VNone)]"

section \<open>How the pieces run\<close>

lemma and_then_Inr:
  "and_then m f h = (Inr y, n) \<longleftrightarrow>
     (\<exists>x n1 n2. m h = (Inr x, n1) \<and> f x (h @ n1) = (Inr y, n2) \<and> n = n1 @ n2)"
  by (auto simp: and_then_def split: prod.splits sum.splits)

lemma and_then_Inl:
  "and_then m f h = (Inl a, n) \<longleftrightarrow>
     m h = (Inl a, n) \<or>
     (\<exists>x n1 n2. m h = (Inr x, n1) \<and> f x (h @ n1) = (Inl a, n2) \<and> n = n1 @ n2)"
  by (auto simp: and_then_def split: prod.splits sum.splits)

lemma and_then_cases:
  assumes "and_then m f h = (r, n)"
  obtains (stops) a where "m h = (Inl a, n)" "r = Inl a"
        | (goes_on) x n1 n2 where "m h = (Inr x, n1)" "f x (h @ n1) = (r, n2)" "n = n1 @ n2"
  using assms by (auto simp: and_then_def split: prod.splits sum.splits)

lemma ext_Inr:
  "ext w c h = (Inr v, n) \<longleftrightarrow> answer w h c = Ret v \<and> n = [Ext c (Ret v)]"
  by (auto simp: ext_def split: resp.splits)

lemma ext_Inl:
  "ext w c h = (Inl a, n) \<longleftrightarrow>
     (\<exists>e. answer w h c = Raise e \<and> a = Raised e \<and> n = [Ext c (Raise e)])"
  by (auto simp: ext_def split: resp.splits)

lemma ret_Inr: "ret x h = (Inr y, n) \<longleftrightarrow> y = x \<and> n = []"
  by (auto simp: ret_def)

lemma ret_Inl: "ret x h \<noteq> (Inl a, n)"
  by (auto simp: ret_def)

lemma exit_Inl: "exit_py k h = (Inl a, n) \<longleftrightarrow> a = Exit k \<and> n = []"
  by (auto simp: exit_py_def)

lemma exit_Inr: "exit_py k h \<noteq> (Inr a, n)"
  by (auto simp: exit_py_def)

lemma enter_Inr: "enter k h = (Inr v, n) \<longleftrightarrow> v = VNone \<and> n = [Enter k]"
  by (auto simp: enter_def)

lemma enter_Inl: "enter k h \<noteq> (Inl a, n)"
  by (auto simp: enter_def)

lemma windll_Inr:
  "windll_shell32 plat w c h = (Inr v, n) \<longleftrightarrow>
     plat = Windows \<and> answer w h c = Ret v \<and> n = [Ext c (Ret v)]"
  by (auto simp: windll_shell32_def ext_Inr)

lemma windll_Inl:
  "windll_shell32 plat w c h = (Inl a, n) \<longleftrightarrow>
     (plat = Windows \<and>
      (\<exists>e. answer w h c = Raise e \<and> a = Raised e \<and> n = [Ext c (Raise e)])) \<or>
     (plat \<noteq> Windows \<and> a = Raised AttributeError \<and>
      n = [Ext CtypesWindll (Raise AttributeError)])"
  by (auto simp: windll_shell32_def ext_Inl)

lemma try_Inr:
  "try_except_AttributeError m h = (Inr v, n) \<longleftrightarrow>
     m h = (Inr v, n) \<or> (v = VNone \<and> m h = (Inl (Raised AttributeError), n))"
  by (auto simp: try_except_AttributeError_def split: prod.splits sum.splits abort.splits exn.splits)

lemma try_Inl:
  "try_except_AttributeError m h = (Inl a, n) \<longleftrightarrow>
     m h = (Inl a, n) \<and> a \<noteq> Raised AttributeError"
  by (auto simp: try_except_AttributeError_def split: prod.splits sum.splits abort.splits exn.splits)

lemmas run_simps =
  and_then_Inr and_then_Inl ext_Inr ext_Inl ret_Inr ret_Inl exit_Inl exit_Inr
  enter_Inr enter_Inl windll_Inr windll_Inl try_Inr try_Inl

text \<open>Evaluating a run on given libraries.\<close>

lemmas eval_simps =
  and_then_def ext_def ret_def exit_py_def enter_def windll_shell32_def
  try_except_AttributeError_def then_run_def run_then_def
  Window_init_def init_head_def init_glfw_def pre_init_def post_init_def glfw_loop_def
  after_loop_def pre_exit_loop_def loop_body_def priv_draw_def imgui_ini_path_def
  poll_events_def resize_event_def Window_base_def glfw_images_def Icon_init_def

lemma calls_append [simp]: "calls (n @ n') = calls n @ calls n'"
  by (induction n rule: calls.induct) simp_all

lemma phases_append [simp]: "phases (n @ n') = phases n @ phases n'"
  by (induction n rule: phases.induct) (simp_all split: option.splits)

lemma tests_append [simp]: "tests (n @ n') = tests n @ tests n'"
  by (induction n rule: tests.induct) (simp_all split: call.splits)

lemma artifacts_append [simp]: "artifacts (n @ n') = artifacts n @ artifacts n'"
  by (induction n rule: artifacts.induct) (simp_all split: option.splits)

lemma entered_simps [simp]:
  "entered k [] = 0"
  "entered k (Ext c r # n) = entered k n"
  "entered k (Enter k' # n) = (if k' = k then Suc (entered k n) else entered k n)"
  "entered k (n @ n') = entered k n + entered k n'"
  by (simp_all add: entered_def)

lemma failed_simps [simp]:
  "failed c [] = False"
  "failed c (ev # n) = ((\<exists>v. ev = Ext c (Ret v) \<and> \<not> truthy v) \<or> failed c n)"
  "failed c (n @ n') = (failed c n \<or> failed c n')"
  by (auto simp: failed_def)

text \<open>Code that returned has left no raise behind it but covered ones, so what follows decides.\<close>

lemma propagates_append:
  "propagates H (Inr x) n1 \<Longrightarrow> propagates H r (n1 @ n2) = propagates H r n2"
proof (induction n1)
  case Nil
  show ?case by simp
next
  case (Cons ev n1)
  show ?case
  proof (cases ev)
    case (Ext c resp)
    with Cons show ?thesis by (cases resp) (auto split: if_splits)
  next
    case (Enter k)
    with Cons show ?thesis by simp
  qed
qed

lemma propagates_Exit: "propagates H (Inl (Exit k)) n = propagates H (Inr x) n"
proof (induction n)
  case Nil
  show ?case by simp
next
  case (Cons ev n)
  show ?case
  proof (cases ev)
    case (Ext c resp)
    with Cons show ?thesis by (cases resp) auto
  next
    case (Enter k)
    with Cons show ?thesis by simp
  qed
qed

lemma answered_by_append:
  "answered_by plat w h (n1 @ n2) \<longleftrightarrow>
     answered_by plat w h n1 \<and> answered_by plat w (h @ n1) n2"
proof (induction n1 arbitrary: h)
  case Nil
  show ?case by simp
next
  case (Cons ev n1)
  show ?case
  proof (cases ev)
    case (Ext c r)
    with Cons [of "h @ [Ext c r]"] show ?thesis by simp
  next
    case (Enter k)
    with Cons [of "h @ [Enter k]"] show ?thesis by simp
  qed
qed

text \<open>An answer in a trace the libraries gave is an answer of theirs.\<close>

lemma answered_by_mem:
  "answered_by plat w h n \<Longrightarrow> Ext c r \<in> set n \<Longrightarrow>
     (c = CtypesWindll \<and> plat \<noteq> Windows) \<or> (\<exists>h'. r = answer w h' c)"
proof (induction n arbitrary: h)
  case Nil
  then show ?case by simp
next
  case (Cons ev n)
  show ?case
  proof (cases "ev = Ext c r")
    case True
    with Cons.prems(1) show ?thesis by (auto split: if_splits)
  next
    case False
    with Cons.prems(2) have mem: "Ext c r \<in> set n" by simp
    show ?thesis
    proof (cases ev)
      case (Ext c' r')
      with Cons.prems(1) have "answered_by plat w (h @ [Ext c' r']) n" by simp
      from Cons.IH [OF this mem] show ?thesis .
    next
      case (Enter k)
      with Cons.prems(1) have "answered_by plat w (h @ [Enter k]) n" by simp
      from Cons.IH [OF this mem] show ?thesis .
    qed
  qed
qed

lemma resumes_append: "resumes n1 \<Longrightarrow> resumes n2 \<Longrightarrow> resumes (n1 @ n2)"
proof (induction n1)
  case Nil
  then show ?case by simp
next
  case (Cons ev n1)
  then show ?case by (cases n1) (auto split: if_splits)
qed

section \<open>Rules for the judgements\<close>

lemma emits_ret: "emits Q (ret x)"
  by (simp add: emits_def ret_def)

lemma emits_exit: "emits Q (exit_py k)"
  by (simp add: emits_def exit_py_def)

lemma emits_enter: "Q (Enter k) \<Longrightarrow> emits Q (enter k)"
  by (simp add: emits_def enter_def)

lemma emits_ext: "(\<And>r. Q (Ext c r)) \<Longrightarrow> emits Q (ext w c)"
  by (auto simp: emits_def ext_def split: resp.splits)

lemma emits_windll:
  "(\<And>r. Q (Ext c r)) \<Longrightarrow> Q (Ext CtypesWindll (Raise AttributeError)) \<Longrightarrow>
   emits Q (windll_shell32 plat w c)"
  by (auto simp: emits_def windll_shell32_def ext_def split: resp.splits)

lemma emits_and_then: "emits Q m \<Longrightarrow> (\<And>x. emits Q (f x)) \<Longrightarrow> emits Q (and_then m f)"
  unfolding emits_def by (fastforce elim!: and_then_cases)

lemma emits_if: "emits Q a \<Longrightarrow> emits Q b \<Longrightarrow> emits Q (if c then a else b)"
  by simp

lemma emits_option:
  "emits Q a \<Longrightarrow> (\<And>x. emits Q (b x)) \<Longrightarrow> emits Q (case x of None \<Rightarrow> a | Some y \<Rightarrow> b y)"
  by (simp split: option.splits)

lemma emits_prod: "(\<And>a b. emits Q (f a b)) \<Longrightarrow> emits Q (case p of (a, b) \<Rightarrow> f a b)"
  by (simp split: prod.splits)

lemma emits_try: "emits Q m \<Longrightarrow> emits Q (try_except_AttributeError m)"
  unfolding emits_def try_except_AttributeError_def
  by (auto split: prod.splits sum.splits abort.splits exn.splits)

lemma emits_resize_event:
  "Q (Enter ResizeEvent) \<Longrightarrow> (\<And>r. Q (Ext (Override ResizeEvent) r)) \<Longrightarrow>
   emits Q (priv_draw w self) \<Longrightarrow> emits Q (resize_event w self win)"
  unfolding resize_event_def
  by (intro emits_and_then emits_enter emits_if emits_ext)

lemma emits_refresh_callbacks:
  "(\<And>win. emits Q (resize_event w self win)) \<Longrightarrow> emits Q (refresh_callbacks k w self)"
  by (induction k) (simp_all add: emits_ret emits_and_then)

lemma emits_poll_events:
  assumes "\<And>win. emits Q (resize_event w self win)" and "\<And>r. Q (Ext GlfwPollEvents r)"
  shows "emits Q (poll_events w self)"
proof -
  have "emits Q (and_then (refresh_callbacks k w self) (\<lambda>_. ext w GlfwPollEvents))" for k
    by (intro emits_and_then emits_refresh_callbacks emits_ext assms)
  then show ?thesis unfolding emits_def poll_events_def by blast
qed

text \<open>The same rules, keeping what the branch taken says.\<close>

lemma emits_if_cond:
  "(c \<Longrightarrow> emits Q a) \<Longrightarrow> (\<not> c \<Longrightarrow> emits Q b) \<Longrightarrow> emits Q (if c then a else b)"
  by simp

lemma emits_option_eq:
  "(x = None \<Longrightarrow> emits Q a) \<Longrightarrow> (\<And>y. x = Some y \<Longrightarrow> emits Q (b y)) \<Longrightarrow>
   emits Q (case x of None \<Rightarrow> a | Some y \<Rightarrow> b y)"
  by (simp split: option.splits)

lemma emits_prod_eq:
  "(\<And>a b. p = (a, b) \<Longrightarrow> emits Q (f a b)) \<Longrightarrow> emits Q (case p of (a, b) \<Rightarrow> f a b)"
  by (simp split: prod.splits)

lemmas emits_exact =
  emits_ret emits_exit emits_enter emits_ext emits_windll emits_and_then emits_if_cond
  emits_option_eq emits_prod_eq emits_try

lemma emits_weaken: "emits P m \<Longrightarrow> (\<And>ev. P ev \<Longrightarrow> Q ev) \<Longrightarrow> emits Q m"
  unfolding emits_def list_all_iff by blast

lemmas emits_intros =
  emits_ret emits_exit emits_enter emits_ext emits_windll emits_and_then emits_if
  emits_option emits_prod emits_try

lemma propagates_Inl:
  "propagates H (Inl a :: abort + 'a) n = propagates H (Inl a :: abort + 'b) n"
proof (induction n)
  case Nil
  show ?case by (cases a) simp_all
next
  case (Cons ev n)
  show ?case
  proof (cases ev)
    case (Ext c resp)
    with Cons show ?thesis by (cases resp) auto
  next
    case (Enter k)
    with Cons show ?thesis by simp
  qed
qed

lemma passes_on_ret: "passes_on (ret x)"
  by (simp add: passes_on_def ret_def)

lemma passes_on_exit: "passes_on (exit_py k)"
  by (simp add: passes_on_def exit_py_def)

lemma passes_on_enter: "passes_on (enter k)"
  by (simp add: passes_on_def enter_def)

lemma passes_on_ext: "(\<And>e. \<not> in_draw_try c e) \<Longrightarrow> passes_on (ext w c)"
  by (auto simp: passes_on_def ext_def split: resp.splits)

lemma passes_on_windll:
  "(\<And>e. \<not> in_draw_try c e) \<Longrightarrow> passes_on (windll_shell32 plat w c)"
  by (auto simp: passes_on_def windll_shell32_def ext_def in_draw_try_def split: resp.splits)

lemma passes_on_and_then:
  assumes "passes_on m" and "\<And>x. passes_on (f x)"
  shows "passes_on (and_then m f)"
  unfolding passes_on_def
proof (intro allI impI)
  fix h r n
  assume "and_then m f h = (r, n)"
  then show "propagates in_draw_try r n"
  proof (cases rule: and_then_cases)
    case (stops a)
    with assms(1) have "propagates in_draw_try (Inl a :: abort + 'a) n"
      by (simp add: passes_on_def)
    with stops show ?thesis using propagates_Inl by blast
  next
    case (goes_on x n1 n2)
    with assms have "propagates in_draw_try (Inr x) n1" "propagates in_draw_try r n2"
      by (auto simp: passes_on_def)
    with goes_on show ?thesis by (simp add: propagates_append)
  qed
qed

lemma passes_on_if: "passes_on a \<Longrightarrow> passes_on b \<Longrightarrow> passes_on (if c then a else b)"
  by simp

lemma passes_on_option:
  "passes_on a \<Longrightarrow> (\<And>x. passes_on (b x)) \<Longrightarrow>
   passes_on (case x of None \<Rightarrow> a | Some y \<Rightarrow> b y)"
  by (simp split: option.splits)

lemma passes_on_prod: "(\<And>a b. passes_on (f a b)) \<Longrightarrow> passes_on (case p of (a, b) \<Rightarrow> f a b)"
  by (simp split: prod.splits)

text \<open>The \<^verbatim>\<open>try\<close> statement of \<^verbatim>\<open>_draw\<close>, with its handler.\<close>

lemma passes_on_draw_try:
  "passes_on (try_except_AttributeError
     (and_then (ext w (GetattrRender ren)) (\<lambda>_.
      and_then (ext w ImguiGetDrawData) (\<lambda>data. ext w (RendererRender ren data)))))"
  unfolding passes_on_def
proof (intro allI impI)
  fix h r n
  assume run: "try_except_AttributeError
     (and_then (ext w (GetattrRender ren)) (\<lambda>_.
      and_then (ext w ImguiGetDrawData) (\<lambda>data. ext w (RendererRender ren data)))) h = (r, n)"
  show "propagates in_draw_try r n"
  proof (cases r)
    case (Inl a)
    with run show ?thesis
      by (cases a) (auto simp: run_simps in_draw_try_def)
  next
    case (Inr v)
    with run show ?thesis
      by (auto simp: run_simps in_draw_try_def)
  qed
qed

lemmas passes_on_intros =
  passes_on_draw_try passes_on_ret passes_on_exit passes_on_enter passes_on_ext passes_on_windll
  passes_on_and_then passes_on_if passes_on_option passes_on_prod

text \<open>Each method passes exceptions on.\<close>

lemma passes_on_init_glfw: "passes_on (init_glfw plat w c)"
  unfolding init_glfw_def
  by (intro passes_on_intros) (simp_all add: in_draw_try_def)

lemma passes_on_priv_draw: "passes_on (priv_draw w self)"
  unfolding priv_draw_def
  by (intro passes_on_intros) (simp_all add: in_draw_try_def)

lemma passes_on_resize_event: "passes_on (resize_event w self win)"
  unfolding resize_event_def
  by (intro passes_on_intros passes_on_priv_draw) (simp_all add: in_draw_try_def)

lemma passes_on_refresh_callbacks: "passes_on (refresh_callbacks k w self)"
  by (induction k) (simp_all add: passes_on_ret passes_on_and_then passes_on_resize_event)

lemma passes_on_poll_events: "passes_on (poll_events w self)"
proof -
  have "passes_on (and_then (refresh_callbacks k w self) (\<lambda>_. ext w GlfwPollEvents))" for k
    by (intro passes_on_and_then passes_on_refresh_callbacks passes_on_ext)
       (simp add: in_draw_try_def)
  then show ?thesis unfolding passes_on_def poll_events_def by blast
qed

lemma passes_on_loop_body: "passes_on (loop_body w self)"
  unfolding loop_body_def
  by (intro passes_on_intros passes_on_priv_draw passes_on_poll_events)
     (simp_all add: in_draw_try_def)

lemma passes_on_init_head: "passes_on (init_head plat w c)"
  unfolding init_head_def pre_init_def post_init_def
  by (intro passes_on_intros passes_on_init_glfw) (simp_all add: in_draw_try_def)

lemma passes_on_after_loop: "passes_on (after_loop w self)"
  unfolding after_loop_def pre_exit_loop_def
  by (intro passes_on_intros) (simp_all add: in_draw_try_def)

text \<open>Each method records the libraries' answers as they are.\<close>

lemma faithful_ret: "faithful plat w (ret x)"
  by (simp add: faithful_def ret_def)

lemma faithful_exit: "faithful plat w (exit_py k)"
  by (simp add: faithful_def exit_py_def)

lemma faithful_enter: "faithful plat w (enter k)"
  by (simp add: faithful_def enter_def)

lemma faithful_ext: "c \<noteq> CtypesWindll \<Longrightarrow> faithful plat w (ext w c)"
  by (auto simp: faithful_def ext_def split: resp.splits)

lemma faithful_windll: "c \<noteq> CtypesWindll \<Longrightarrow> faithful plat w (windll_shell32 plat w c)"
  by (auto simp: faithful_def windll_shell32_def ext_def split: resp.splits)

lemma faithful_and_then:
  assumes "faithful plat w m" and "\<And>x. faithful plat w (f x)"
  shows "faithful plat w (and_then m f)"
  unfolding faithful_def
proof (intro allI impI)
  fix h r n
  assume "and_then m f h = (r, n)"
  then show "answered_by plat w h n"
  proof (cases rule: and_then_cases)
    case (stops a)
    with assms(1) show ?thesis by (simp add: faithful_def)
  next
    case (goes_on x n1 n2)
    with assms have "answered_by plat w h n1" "answered_by plat w (h @ n1) n2"
      by (auto simp: faithful_def)
    with goes_on(3) show ?thesis by (simp add: answered_by_append)
  qed
qed

lemma faithful_if:
  "faithful plat w a \<Longrightarrow> faithful plat w b \<Longrightarrow> faithful plat w (if c then a else b)"
  by simp

lemma faithful_option:
  "faithful plat w a \<Longrightarrow> (\<And>y. faithful plat w (b y)) \<Longrightarrow>
   faithful plat w (case x of None \<Rightarrow> a | Some y \<Rightarrow> b y)"
  by (simp split: option.splits)

lemma faithful_prod:
  "(\<And>a b. faithful plat w (f a b)) \<Longrightarrow> faithful plat w (case p of (a, b) \<Rightarrow> f a b)"
  by (simp split: prod.splits)

lemma faithful_try: "faithful plat w m \<Longrightarrow> faithful plat w (try_except_AttributeError m)"
  unfolding faithful_def try_except_AttributeError_def
  by (auto split: prod.splits sum.splits abort.splits exn.splits)

lemmas faithful_intros =
  faithful_ret faithful_exit faithful_enter faithful_ext faithful_windll faithful_and_then
  faithful_if faithful_option faithful_prod faithful_try

lemma faithful_init_glfw: "faithful plat w (init_glfw plat w c)"
  unfolding init_glfw_def
  by (intro faithful_intros) simp_all

lemma faithful_priv_draw: "faithful plat w (priv_draw w self)"
  unfolding priv_draw_def
  by (intro faithful_intros) simp_all

lemma faithful_resize_event: "faithful plat w (resize_event w self win)"
  unfolding resize_event_def
  by (intro faithful_intros faithful_priv_draw) simp_all

lemma faithful_refresh_callbacks: "faithful plat w (refresh_callbacks k w self)"
  by (induction k) (simp_all add: faithful_ret faithful_and_then faithful_resize_event)

lemma faithful_poll_events: "faithful plat w (poll_events w self)"
proof -
  have "faithful plat w (and_then (refresh_callbacks k w self) (\<lambda>_. ext w GlfwPollEvents))"
    for k
    by (intro faithful_and_then faithful_refresh_callbacks faithful_ext) simp
  then show ?thesis unfolding faithful_def poll_events_def by blast
qed

lemma faithful_loop_body: "faithful plat w (loop_body w self)"
  unfolding loop_body_def
  by (intro faithful_intros faithful_priv_draw faithful_poll_events) simp_all

lemma faithful_init_head: "faithful plat w (init_head plat w c)"
  unfolding init_head_def pre_init_def post_init_def
  by (intro faithful_intros faithful_init_glfw) simp_all

lemma faithful_after_loop: "faithful plat w (after_loop w self)"
  unfolding after_loop_def pre_exit_loop_def
  by (intro faithful_intros) simp_all

text \<open>The events each part can add.\<close>

lemma emits_init_head_events: "emits (setup_event c) (init_head plat w c)"
  unfolding init_head_def init_glfw_def pre_init_def post_init_def
  by (intro emits_exact) (simp_all add: setup_event_def)

lemma emits_priv_draw_events: "emits (loop_event (cls self)) (priv_draw w self)"
  unfolding priv_draw_def
  by (intro emits_exact) (simp_all add: loop_event_def)

lemma emits_resize_event_events: "emits (loop_event (cls self)) (resize_event w self win)"
  unfolding resize_event_def
  by (intro emits_exact emits_priv_draw_events) (simp_all add: loop_event_def)

lemma emits_loop_body_events: "emits (loop_event (cls self)) (loop_body w self)"
  unfolding loop_body_def
  by (intro emits_exact emits_poll_events emits_resize_event_events emits_priv_draw_events)
     (simp_all add: loop_event_def)

lemma emits_after_loop_events: "emits (teardown_event (cls self)) (after_loop w self)"
  unfolding after_loop_def pre_exit_loop_def
  by (intro emits_exact) (simp_all add: teardown_event_def)

text \<open>Where the code caught a raise, it went on.\<close>

lemma steady_ret: "steady (ret x)"
  by (simp add: steady_def ret_def)

lemma steady_exit: "steady (exit_py k)"
  by (simp add: steady_def exit_py_def)

lemma steady_enter: "steady (enter k)"
  by (simp add: steady_def enter_def)

lemma steady_ext: "(\<And>e. \<not> in_draw_try c e) \<Longrightarrow> steady (ext w c)"
  by (auto simp: steady_def ext_def split: resp.splits)

lemma steady_windll: "(\<And>e. \<not> in_draw_try c e) \<Longrightarrow> steady (windll_shell32 plat w c)"
  by (auto simp: steady_def windll_shell32_def ext_def in_draw_try_def split: resp.splits)

lemma steady_and_then:
  assumes "steady m" and "\<And>x. steady (f x)"
  shows "steady (and_then m f)"
  unfolding steady_def
proof (intro allI impI)
  fix h r n
  assume "and_then m f h = (r, n)"
  then show "resumes n"
  proof (cases rule: and_then_cases)
    case (stops a)
    with assms(1) show ?thesis by (simp add: steady_def)
  next
    case (goes_on x n1 n2)
    with assms have "resumes n1" "resumes n2" by (auto simp: steady_def)
    with goes_on(3) show ?thesis by (simp add: resumes_append)
  qed
qed

lemma steady_if: "steady a \<Longrightarrow> steady b \<Longrightarrow> steady (if c then a else b)"
  by simp

lemma steady_option:
  "steady a \<Longrightarrow> (\<And>y. steady (b y)) \<Longrightarrow> steady (case x of None \<Rightarrow> a | Some y \<Rightarrow> b y)"
  by (simp split: option.splits)

lemma steady_prod: "(\<And>a b. steady (f a b)) \<Longrightarrow> steady (case p of (a, b) \<Rightarrow> f a b)"
  by (simp split: prod.splits)

lemmas steady_intros =
  steady_ret steady_exit steady_enter steady_ext steady_windll steady_and_then steady_if
  steady_option steady_prod

text \<open>The \<^verbatim>\<open>try\<close> statement of \<^verbatim>\<open>_draw\<close> and the statement after it.\<close>

lemma steady_draw_try:
  "steady (and_then (try_except_AttributeError
     (and_then (ext w (GetattrRender ren)) (\<lambda>_.
      and_then (ext w ImguiGetDrawData) (\<lambda>data. ext w (RendererRender ren data)))))
     (\<lambda>_. ext w (GlfwSwapBuffers win)))"
  unfolding steady_def
proof (intro allI impI)
  fix h r n
  assume run: "and_then (try_except_AttributeError
     (and_then (ext w (GetattrRender ren)) (\<lambda>_.
      and_then (ext w ImguiGetDrawData) (\<lambda>data. ext w (RendererRender ren data)))))
     (\<lambda>_. ext w (GlfwSwapBuffers win)) h = (r, n)"
  show "resumes n"
  proof (cases r)
    case (Inl a)
    with run show ?thesis
      by (auto simp: run_simps in_draw_try_def) (case_tac e; simp)+
  next
    case (Inr x)
    with run show ?thesis
      by (auto simp: run_simps in_draw_try_def)
  qed
qed

lemma steady_priv_draw: "steady (priv_draw w self)"
  unfolding priv_draw_def
  apply (rule steady_and_then, rule steady_ext, simp add: in_draw_try_def)
  apply (rule steady_and_then, rule steady_ext, simp add: in_draw_try_def)
  apply (rule steady_and_then, (intro steady_prod steady_ext)[1], simp add: in_draw_try_def)
  apply (rule steady_and_then, rule steady_ext, simp add: in_draw_try_def)
  apply (rule steady_and_then, rule steady_ext, simp add: in_draw_try_def)
  apply (rule steady_draw_try)
  done

lemma steady_resize_event: "steady (resize_event w self win)"
  unfolding resize_event_def
  by (intro steady_intros steady_priv_draw) (simp_all add: in_draw_try_def)

lemma steady_refresh_callbacks: "steady (refresh_callbacks k w self)"
  by (induction k) (simp_all add: steady_ret steady_and_then steady_resize_event)

lemma steady_poll_events: "steady (poll_events w self)"
proof -
  have "steady (and_then (refresh_callbacks k w self) (\<lambda>_. ext w GlfwPollEvents))" for k
    by (intro steady_and_then steady_refresh_callbacks steady_ext)
       (simp add: in_draw_try_def)
  then show ?thesis unfolding steady_def poll_events_def by blast
qed

lemma steady_loop_body: "steady (loop_body w self)"
  unfolding loop_body_def
  by (intro steady_intros steady_priv_draw steady_poll_events)
     (simp_all add: in_draw_try_def)

lemma steady_init_head: "steady (init_head plat w c)"
  unfolding init_head_def init_glfw_def pre_init_def post_init_def
  by (intro steady_intros) (simp_all add: in_draw_try_def)

lemma steady_after_loop: "steady (after_loop w self)"
  unfolding after_loop_def pre_exit_loop_def
  by (intro steady_intros) (simp_all add: in_draw_try_def)

section \<open>The whole construction, piece by piece\<close>

lemma Window_init_cases:
  assumes "Window_init fuel plat w c h = Some (r, n)"
  obtains
    (at_setup) a where "init_head plat w c h = (Inl a, n)" "r = Inl a"
  | (in_loop) self n1 a n2 where
      "init_head plat w c h = (Inr self, n1)"
      "glfw_while fuel w self (h @ n1) = Some (Inl a, n2)" "r = Inl a" "n = n1 @ n2"
  | (at_teardown) self n1 x n2 n3 where
      "init_head plat w c h = (Inr self, n1)"
      "glfw_while fuel w self (h @ n1) = Some (Inr x, n2)"
      "after_loop w self (h @ n1 @ n2) = (r, n3)" "n = n1 @ n2 @ n3"
  using assms
  by (auto simp: Window_init_def run_then_def glfw_loop_def then_run_def
           split: prod.splits sum.splits option.splits)

lemma init_head_self:
  "init_head plat w c h = (Inr self, n) \<Longrightarrow> cls self = c"
  by (auto simp: init_head_def run_simps split: prod.splits)

lemma glfw_while_cases:
  assumes "glfw_while (Suc fuel) w self h = Some (r, n)"
  obtains
    (test_raises) e where
      "answer w h (GlfwWindowShouldClose (window self)) = Raise e" "r = Inl (Raised e)"
      "n = [Ext (GlfwWindowShouldClose (window self)) (Raise e)]"
  | (closes) v where
      "answer w h (GlfwWindowShouldClose (window self)) = Ret v" "truthy v" "r = Inr VNone"
      "n = [Ext (GlfwWindowShouldClose (window self)) (Ret v)]"
  | (body_stops) v a n2 where
      "answer w h (GlfwWindowShouldClose (window self)) = Ret v" "\<not> truthy v"
      "loop_body w self (h @ [Ext (GlfwWindowShouldClose (window self)) (Ret v)]) = (Inl a, n2)"
      "r = Inl a" "n = Ext (GlfwWindowShouldClose (window self)) (Ret v) # n2"
  | (again) v x n2 n3 where
      "answer w h (GlfwWindowShouldClose (window self)) = Ret v" "\<not> truthy v"
      "loop_body w self (h @ [Ext (GlfwWindowShouldClose (window self)) (Ret v)]) = (Inr x, n2)"
      "glfw_while fuel w self (h @ Ext (GlfwWindowShouldClose (window self)) (Ret v) # n2) =
         Some (r, n3)"
      "n = Ext (GlfwWindowShouldClose (window self)) (Ret v) # n2 @ n3"
  using assms
  by (auto simp: ext_def split: resp.splits prod.splits sum.splits option.splits if_splits)

text \<open>What one frame, one call of the refresh callback and one poll leave in the trace.\<close>

lemma priv_draw_trace:
  assumes "priv_draw w self h = (r, n)"
  shows "tests n = [] \<and> count_list (calls n) GlfwPollEvents = 0 \<and>
         count_list (calls n) (RendererProcessInputs ren) = 0 \<and>
         entered k n = 0 \<and> (\<forall>code. r \<noteq> Inl (Exit code)) \<and>
         (\<forall>x. r = Inr x \<longrightarrow> count_list (calls n) DrawBody = 1)"
proof (cases r)
  case (Inl a)
  with assms show ?thesis unfolding priv_draw_def
    by (auto simp: run_simps split: if_splits prod.splits)
next
  case (Inr x)
  with assms show ?thesis unfolding priv_draw_def
    by (auto simp: run_simps split: if_splits prod.splits)
qed

lemma resize_event_trace:
  assumes "resize_event w self win h = (r, n)"
  shows "tests n = [] \<and> count_list (calls n) GlfwPollEvents = 0 \<and>
         count_list (calls n) (RendererProcessInputs ren) = 0 \<and>
         entered ResizeEvent n = 1 \<and> (\<forall>code. r \<noteq> Inl (Exit code)) \<and>
         (\<forall>x. r = Inr x \<longrightarrow>
            count_list (calls n) DrawBody = (if overrides (cls self) ResizeEvent then 0 else 1))"
proof -
  from assms have
    "and_then (enter ResizeEvent)
       (\<lambda>_. if overrides (cls self) ResizeEvent then ext w (Override ResizeEvent)
             else priv_draw w self) h = (r, n)"
    by (simp add: resize_event_def)
  then show ?thesis
  proof (cases rule: and_then_cases)
    case (stops a)
    then show ?thesis by (simp add: enter_def)
  next
    case (goes_on x n1 n2)
    from goes_on(1) have n1: "n1 = [Enter ResizeEvent]" by (simp add: enter_def)
    show ?thesis
    proof (cases "overrides (cls self) ResizeEvent")
      case True
      with goes_on(2) have "ext w (Override ResizeEvent) (h @ n1) = (r, n2)" by simp
      with True n1 goes_on(3) show ?thesis by (auto simp: ext_def split: resp.splits)
    next
      case False
      with goes_on(2) have "priv_draw w self (h @ n1) = (r, n2)" by simp
      from priv_draw_trace [OF this, of ren ResizeEvent] False n1 goes_on(3)
      show ?thesis by simp
    qed
  qed
qed

lemma refresh_callbacks_trace:
  "refresh_callbacks j w self h = (r, n) \<Longrightarrow>
     tests n = [] \<and> count_list (calls n) GlfwPollEvents = 0 \<and>
     count_list (calls n) (RendererProcessInputs ren) = 0 \<and>
     entered ResizeEvent n \<le> j \<and> (\<forall>code. r \<noteq> Inl (Exit code)) \<and>
     (\<forall>x. r = Inr x \<longrightarrow>
        entered ResizeEvent n = j \<and>
        count_list (calls n) DrawBody = (if overrides (cls self) ResizeEvent then 0 else j))"
proof (induction j arbitrary: h r n)
  case 0
  then show ?case by (auto simp: ret_def)
next
  case (Suc j)
  from Suc.prems have
    "and_then (resize_event w self (window self)) (\<lambda>_. refresh_callbacks j w self) h = (r, n)"
    by simp
  then show ?case
  proof (cases rule: and_then_cases)
    case (stops a)
    with resize_event_trace [OF stops(1), of ren] show ?thesis by simp
  next
    case (goes_on x n1 n2)
    from resize_event_trace [OF goes_on(1), of ren] Suc.IH [OF goes_on(2)] goes_on(3)
    show ?thesis by simp
  qed
qed

lemma poll_events_trace:
  assumes "poll_events w self h = (r, n)"
  shows "tests n = [] \<and> count_list (calls n) GlfwPollEvents \<le> 1 \<and>
         count_list (calls n) (RendererProcessInputs ren) = 0 \<and>
         entered ResizeEvent n \<le> refreshes w h \<and> (\<forall>code. r \<noteq> Inl (Exit code)) \<and>
         (\<forall>x. r = Inr x \<longrightarrow>
            count_list (calls n) GlfwPollEvents = 1 \<and>
            entered ResizeEvent n = refreshes w h \<and>
            count_list (calls n) DrawBody =
              (if overrides (cls self) ResizeEvent then 0 else refreshes w h))"
proof -
  from assms have
    "and_then (refresh_callbacks (refreshes w h) w self) (\<lambda>_. ext w GlfwPollEvents) h = (r, n)"
    by (simp add: poll_events_def)
  then show ?thesis
  proof (cases rule: and_then_cases)
    case (stops a)
    with refresh_callbacks_trace [OF stops(1), of ren] show ?thesis by simp
  next
    case (goes_on x n1 n2)
    from refresh_callbacks_trace [OF goes_on(1), of ren] goes_on(2,3)
    show ?thesis by (auto simp: ext_def split: resp.splits)
  qed
qed

text \<open>What one pass through the loop body leaves in the trace.\<close>

lemma loop_body_trace:
  assumes "loop_body w self h = (r, n)"
  shows "tests n = [] \<and> count_list (calls n) GlfwPollEvents \<le> 1 \<and>
         (\<forall>code. r \<noteq> Inl (Exit code)) \<and>
         (\<forall>x. r = Inr x \<longrightarrow>
            count_list (calls n) GlfwPollEvents = 1 \<and>
            count_list (calls n) (RendererProcessInputs (renderer self)) = 1 \<and>
            entered ResizeEvent n = refreshes w h \<and>
            count_list (calls n) DrawBody =
              1 + (if overrides (cls self) ResizeEvent then 0 else refreshes w h))"
proof -
  let ?rest = "\<lambda>_ :: val.
     and_then (ext w (RendererProcessInputs (renderer self))) (\<lambda>_.
     and_then (ext w ImguiWantSaveIniSettings) (\<lambda>wants.
     and_then (if truthy wants then ext w (Print [PStr ''wants to save!'']) else ret VNone) (\<lambda>_.
     priv_draw w self)))"
  have rest: "tests n2 = [] \<and> count_list (calls n2) GlfwPollEvents = 0 \<and>
              entered ResizeEvent n2 = 0 \<and> (\<forall>code. r \<noteq> Inl (Exit code)) \<and>
              (\<forall>x. r = Inr x \<longrightarrow>
                 count_list (calls n2) (RendererProcessInputs (renderer self)) = 1 \<and>
                 count_list (calls n2) DrawBody = 1)"
    if "?rest v h' = (r, n2)" for v h' n2
  proof (cases r)
    case (Inl a)
    with that show ?thesis
      by (auto simp: run_simps split: if_splits
               dest: priv_draw_trace [where ren = "renderer self" and k = ResizeEvent])
  next
    case (Inr x)
    with that show ?thesis
      by (auto simp: run_simps split: if_splits
               dest: priv_draw_trace [where ren = "renderer self" and k = ResizeEvent])
  qed
  from assms have "and_then (poll_events w self) ?rest h = (r, n)"
    by (simp add: loop_body_def)
  then show ?thesis
  proof (cases rule: and_then_cases)
    case (stops a)
    with poll_events_trace [OF stops(1), of "renderer self"] show ?thesis by simp
  next
    case (goes_on x n1 n2)
    from poll_events_trace [OF goes_on(1), of "renderer self"] rest [OF goes_on(2)] goes_on(3)
    show ?thesis by simp
  qed
qed

lemma glfw_while_tests:
  assumes "glfw_while fuel w self h = Some (r, n)"
  shows "tests n \<noteq> []"
proof (cases fuel)
  case 0
  with assms show ?thesis by simp
next
  case (Suc f)
  with assms have "glfw_while (Suc f) w self h = Some (r, n)" by simp
  then show ?thesis by (cases rule: glfw_while_cases) simp_all
qed

lemma glfw_while_trace:
  "glfw_while fuel w self h = Some (r, n) \<Longrightarrow>
     list_all unset (butlast (tests n)) \<and>
     count_list (calls n) GlfwPollEvents \<le> length (filter unset (tests n)) \<and>
     (\<forall>code. r \<noteq> Inl (Exit code)) \<and>
     (\<forall>x. r = Inr x \<longrightarrow>
        (\<exists>pre a. n = pre @ [Ext (GlfwWindowShouldClose (window self)) (Ret a)] \<and> truthy a) \<and>
        is_set (last (tests n)) \<and>
        count_list (calls n) GlfwPollEvents = length (filter unset (tests n)) \<and>
        count_list (calls n) (RendererProcessInputs (renderer self)) =
          length (filter unset (tests n)) \<and>
        count_list (calls n) DrawBody =
          length (filter unset (tests n)) +
          (if overrides (cls self) ResizeEvent then 0 else entered ResizeEvent n))"
proof (induction fuel arbitrary: h r n)
  case 0
  then show ?case by simp
next
  case (Suc fuel)
  from Suc.prems show ?case
  proof (cases rule: glfw_while_cases)
    case (test_raises e)
    then show ?thesis by simp
  next
    case (closes v)
    then show ?thesis by simp
  next
    case (body_stops v a n2)
    with loop_body_trace [OF body_stops(3)] show ?thesis by simp
  next
    case (again v x n2 n3)
    note body = loop_body_trace [OF again(3)]
    note rest = Suc.IH [OF again(4)]
    from glfw_while_tests [OF again(4)] have ne: "tests n3 \<noteq> []" .
    have n: "n = (Ext (GlfwWindowShouldClose (window self)) (Ret v) # n2) @ n3"
      using again(5) by simp
    show ?thesis
    proof (intro conjI allI impI)
      show "list_all unset (butlast (tests n))"
        using rest body ne again(2) by (simp add: n butlast_append)
      show "count_list (calls n) GlfwPollEvents \<le> length (filter unset (tests n))"
        using rest body again(2) by (simp add: n)
      show "r \<noteq> Inl (Exit code)" for code using rest by simp
    next
      fix y assume r: "r = Inr y"
      with rest obtain pre a where
        "n3 = pre @ [Ext (GlfwWindowShouldClose (window self)) (Ret a)]" "truthy a"
        by blast
      then show "\<exists>pre a. n = pre @ [Ext (GlfwWindowShouldClose (window self)) (Ret a)] \<and> truthy a"
        unfolding n by (metis append.assoc)
      show "is_set (last (tests n))" using rest r ne by (simp add: n)
      show "count_list (calls n) GlfwPollEvents = length (filter unset (tests n))"
        using rest r body again(2) by (simp add: n)
      show "count_list (calls n) (RendererProcessInputs (renderer self)) =
          length (filter unset (tests n))"
        using rest r body again(2) by (simp add: n)
      show "count_list (calls n) DrawBody =
          length (filter unset (tests n)) +
          (if overrides (cls self) ResizeEvent then 0 else entered ResizeEvent n)"
        using rest r body again(2) by (simp add: n)
    qed
  qed
qed


lemma glfw_while_list_all:
  assumes body: "\<And>h. emits Q (loop_body w self)"
      and test: "\<And>r. Q (Ext (GlfwWindowShouldClose (window self)) r)"
  shows "glfw_while fuel w self h = Some (r, n) \<Longrightarrow> list_all Q n"
proof (induction fuel arbitrary: h r n)
  case 0
  then show ?case by simp
next
  case (Suc fuel)
  from Suc.prems show ?case
  proof (cases rule: glfw_while_cases)
    case (test_raises e)
    then show ?thesis using test by simp
  next
    case (closes v)
    then show ?thesis using test by simp
  next
    case (body_stops v a n2)
    then show ?thesis using test body by (auto simp: emits_def)
  next
    case (again v x n2 n3)
    with Suc.IH [OF again(4)] show ?thesis using test body by (auto simp: emits_def)
  qed
qed

lemma glfw_while_propagates:
  "glfw_while fuel w self h = Some (r, n) \<Longrightarrow> propagates in_draw_try r n"
proof (induction fuel arbitrary: h r n)
  case 0
  then show ?case by simp
next
  case (Suc fuel)
  from Suc.prems show ?case
  proof (cases rule: glfw_while_cases)
    case (test_raises e)
    then show ?thesis by (simp add: in_draw_try_def)
  next
    case (closes v)
    then show ?thesis by simp
  next
    case (body_stops v a n2)
    with passes_on_loop_body [of w self] show ?thesis by (auto simp: passes_on_def)
  next
    case (again v x n2 n3)
    from passes_on_loop_body [of w self] again(3) have "propagates in_draw_try (Inr x) n2"
      by (auto simp: passes_on_def)
    with Suc.IH [OF again(4)] again(5) show ?thesis by (simp add: propagates_append)
  qed
qed

text \<open>Fuel is only a bound: more of it changes no run that ended.\<close>

lemma glfw_while_more_fuel:
  "glfw_while fuel w self h = Some x \<Longrightarrow> glfw_while (fuel + extra) w self h = Some x"
proof (induction fuel arbitrary: h x)
  case 0
  then show ?case by simp
next
  case (Suc fuel)
  then show ?case
    by (auto split: prod.splits sum.splits option.splits if_splits)
qed

text \<open>The loop records the libraries' answers as they are.\<close>

lemma glfw_while_answered:
  "glfw_while fuel w self h = Some (r, n) \<Longrightarrow> answered_by plat w h n"
proof (induction fuel arbitrary: h r n)
  case 0
  then show ?case by simp
next
  case (Suc fuel)
  from Suc.prems show ?case
  proof (cases rule: glfw_while_cases)
    case (test_raises e)
    then show ?thesis by simp
  next
    case (closes v)
    then show ?thesis by simp
  next
    case (body_stops v a n2)
    with faithful_loop_body [of plat w self] show ?thesis by (simp add: faithful_def)
  next
    case (again v x n2 n3)
    let ?t = "Ext (GlfwWindowShouldClose (window self)) (Ret v)"
    from faithful_loop_body [of plat w self] again(3)
    have "answered_by plat w (h @ [?t]) n2" by (simp add: faithful_def)
    moreover from Suc.IH [OF again(4)] have "answered_by plat w ((h @ [?t]) @ n2) n3" by simp
    ultimately have "answered_by plat w (h @ [?t]) (n2 @ n3)"
      by (simp only: answered_by_append)
    with again(1,5) show ?thesis by simp
  qed
qed

text \<open>
  If the libraries set the should-close flag once \<open>k\<close> polls have been made, the loop ends
  within \<open>k + 1\<close> tests; if, moreover, no call raises, it ends because the flag is set.
\<close>

lemma glfw_while_ends:
  assumes closing: "\<And>h'. k \<le> count_list (calls h') GlfwPollEvents \<Longrightarrow>
            \<not> unset (answer w h' (GlfwWindowShouldClose (window self)))"
  shows "k \<le> count_list (calls h) GlfwPollEvents + fuel \<Longrightarrow>
         glfw_while (Suc fuel) w self h \<noteq> None"
proof (induction fuel arbitrary: h)
  case 0
  with closing [of h] show ?case
    by (cases "answer w h (GlfwWindowShouldClose (window self))") (simp_all add: ext_def)
next
  case (Suc fuel)
  let ?test = "GlfwWindowShouldClose (window self)"
  show ?case
  proof (cases "answer w h ?test")
    case (Raise e)
    then show ?thesis by (simp add: ext_def)
  next
    case (Ret v)
    show ?thesis
    proof (cases "truthy v")
      case True
      with Ret show ?thesis by (simp add: ext_def)
    next
      case False
      obtain rb nb where body: "loop_body w self (h @ [Ext ?test (Ret v)]) = (rb, nb)"
        by (cases "loop_body w self (h @ [Ext ?test (Ret v)])")
      show ?thesis
      proof (cases rb)
        case (Inl a)
        with Ret False body show ?thesis by (simp add: ext_def)
      next
        case (Inr x)
        from loop_body_trace [OF body] Inr
        have "count_list (calls nb) GlfwPollEvents = 1" by simp
        with Suc.prems have
          "k \<le> count_list (calls (h @ Ext ?test (Ret v) # nb)) GlfwPollEvents + fuel"
          by simp
        from Suc.IH [OF this] obtain y where
          "glfw_while (Suc fuel) w self (h @ Ext ?test (Ret v) # nb) = Some y"
          by blast
        with Ret False body Inr show ?thesis
          by (cases y) (simp add: ext_def)
      qed
    qed
  qed
qed

text \<open>With libraries that never raise, every piece of code runs to its end or exits.\<close>

lemma answered_by_never_raises:
  "answered_by Windows w h n \<Longrightarrow> never_raises w \<Longrightarrow> propagates H r n \<Longrightarrow> \<not> raised r"
proof (induction n arbitrary: h)
  case Nil
  then show ?case by simp
next
  case (Cons ev n)
  show ?case
  proof (cases ev)
    case (Enter k)
    with Cons show ?thesis by simp
  next
    case (Ext c resp)
    with Cons.prems(1) have resp: "resp = answer w h c" and
      rest: "answered_by Windows w (h @ [Ext c resp]) n"
      by (simp_all split: if_splits)
    from Cons.prems(2) resp obtain v where "resp = Ret v"
      unfolding never_raises_def by metis
    with Cons.prems Cons.IH [OF rest] Ext show ?thesis by simp
  qed
qed

lemma glfw_while_Inr: "glfw_while fuel w self h = Some (Inr x, n) \<Longrightarrow> x = VNone"
proof (induction fuel arbitrary: h n)
  case 0
  then show ?case by simp
next
  case (Suc fuel)
  from Suc.prems show ?case
  proof (cases rule: glfw_while_cases)
    case (again v y n2 n3)
    from Suc.IH [OF again(4)] show ?thesis .
  qed simp_all
qed

lemma glfw_while_returns:
  assumes "never_raises w" and "closes_after k w"
  shows "\<exists>n. glfw_while (Suc k) w self h = Some (Inr VNone, n)"
proof -
  have "\<not> unset (answer w h' (GlfwWindowShouldClose (window self)))"
    if "k \<le> count_list (calls h') GlfwPollEvents" for h'
  proof -
    from assms(2) that have "is_set (answer w h' (GlfwWindowShouldClose (window self)))"
      unfolding closes_after_def by blast
    then show ?thesis by (cases "answer w h' (GlfwWindowShouldClose (window self))") simp_all
  qed
  from glfw_while_ends [of k w self h k, OF this]
  obtain r n where run: "glfw_while (Suc k) w self h = Some (r, n)" by fastforce
  from glfw_while_answered [OF run, of Windows] assms(1) glfw_while_propagates [OF run]
  have "\<not> raised r" by (rule answered_by_never_raises)
  moreover from glfw_while_trace [OF run] have "\<forall>code. r \<noteq> Inl (Exit code)" by simp
  moreover have "r = Inr VNone" if "r = Inr x" for x
    using run that glfw_while_Inr by blast
  ultimately show ?thesis using run
    by (cases r) (auto elim: raised.elims)
qed

lemma glfw_while_resumes:
  "glfw_while fuel w self h = Some (r, n) \<Longrightarrow> resumes n"
proof (induction fuel arbitrary: h r n)
  case 0
  then show ?case by simp
next
  case (Suc fuel)
  from Suc.prems show ?case
  proof (cases rule: glfw_while_cases)
    case (test_raises e)
    then show ?thesis by (simp add: in_draw_try_def)
  next
    case (closes v)
    then show ?thesis by simp
  next
    case (body_stops v a n2)
    with steady_loop_body [of w self] have "resumes n2" by (simp add: steady_def)
    with body_stops(5) show ?thesis by simp
  next
    case (again v x n2 n3)
    from steady_loop_body [of w self] again(3) have "resumes n2" by (simp add: steady_def)
    with Suc.IH [OF again(4)] have "resumes (n2 @ n3)" by (simp add: resumes_append)
    with again(5) show ?thesis by simp
  qed
qed

section \<open>Facts about traces\<close>

lemma propagates_raised_last:
  "propagates H (Inl (Raised e) :: abort + 'a) n \<Longrightarrow> \<exists>pre c. n = pre @ [Ext c (Raise e)]"
proof (induction n)
  case Nil
  then show ?case by simp
next
  case (Cons ev n)
  show ?case
  proof (cases ev)
    case (Enter k)
    with Cons obtain pre c where "n = pre @ [Ext c (Raise e)]" by auto
    then have "ev # n = (ev # pre) @ [Ext c (Raise e)]" by simp
    then show ?thesis by blast
  next
    case (Ext c resp)
    show ?thesis
    proof (cases resp)
      case (Ret v)
      with Ext Cons obtain pre c' where "n = pre @ [Ext c' (Raise e)]" by auto
      then have "ev # n = (ev # pre) @ [Ext c' (Raise e)]" by simp
      then show ?thesis by blast
    next
      case (Raise e')
      show ?thesis
      proof (cases "H c e'")
        case True
        with Raise Ext Cons obtain pre c' where "n = pre @ [Ext c' (Raise e)]" by auto
        then have "ev # n = (ev # pre) @ [Ext c' (Raise e)]" by simp
        then show ?thesis by blast
      next
        case False
        with Raise Ext Cons.prems have "ev # n = [] @ [Ext c (Raise e)]" by simp
        then show ?thesis by blast
      qed
    qed
  qed
qed

lemma propagates_at:
  "propagates H r n \<Longrightarrow> n = pre @ Ext c (Raise e) # post \<Longrightarrow>
     H c e \<or> (post = [] \<and> r = Inl (Raised e))"
proof (induction pre arbitrary: n)
  case Nil
  then show ?case by (auto split: if_splits)
next
  case (Cons ev pre)
  then obtain n' where n: "n = ev # n'" and n': "n' = pre @ Ext c (Raise e) # post" by simp
  have "propagates H r n'"
  proof (cases ev)
    case (Enter k)
    with Cons.prems(1) n show ?thesis by simp
  next
    case (Ext c' resp)
    show ?thesis
    proof (cases resp)
      case (Ret v)
      with Ext Cons.prems(1) n show ?thesis by simp
    next
      case (Raise e')
      with Ext Cons.prems(1) n n' show ?thesis by (auto split: if_splits)
    qed
  qed
  from Cons.IH [OF this n'] show ?case .
qed

text \<open>Phases, artifacts and tests of a trace follow from those of its events.\<close>

lemma phases_subset:
  "list_all (\<lambda>ev. set (phases [ev]) \<subseteq> P) n \<Longrightarrow> set (phases n) \<subseteq> P"
proof (induction n)
  case Nil
  show ?case by simp
next
  case (Cons ev n)
  have "phases (ev # n) = phases [ev] @ phases n"
    using phases_append [of "[ev]" n] by simp
  with Cons show ?case by simp
qed

lemma artifacts_subset:
  "list_all (\<lambda>ev. set (artifacts [ev]) \<subseteq> A) n \<Longrightarrow> set (artifacts n) \<subseteq> A"
proof (induction n)
  case Nil
  show ?case by simp
next
  case (Cons ev n)
  have "artifacts (ev # n) = artifacts [ev] @ artifacts n"
    using artifacts_append [of "[ev]" n] by simp
  with Cons show ?case by simp
qed

lemma tests_empty:
  "list_all (\<lambda>ev. tests [ev] = []) n \<Longrightarrow> tests n = []"
proof (induction n)
  case Nil
  show ?case by simp
next
  case (Cons ev n)
  have "tests (ev # n) = tests [ev] @ tests n"
    using tests_append [of "[ev]" n] by simp
  with Cons show ?case by simp
qed

lemma calls_subset:
  "list_all (\<lambda>ev. set (calls [ev]) \<subseteq> C) n \<Longrightarrow> set (calls n) \<subseteq> C"
proof (induction n)
  case Nil
  show ?case by simp
next
  case (Cons ev n)
  have "calls (ev # n) = calls [ev] @ calls n"
    using calls_append [of "[ev]" n] by simp
  with Cons show ?case by simp
qed

lemma entered_zero:
  "list_all (\<lambda>ev. ev \<noteq> Enter k) n \<Longrightarrow> entered k n = 0"
  by (induction n) (auto simp: entered_def)

lemma tests_phase: "tests n \<noteq> [] \<Longrightarrow> 3 \<in> set (phases n)"
proof (induction n rule: tests.induct)
  case 1
  then show ?case by simp
next
  case (2 c r n)
  then show ?case by (cases c) (auto simp: phase_of_call_def)
next
  case (3 k n)
  then show ?case by simp
qed

lemma artifacts_without:
  "list_all (\<lambda>ev. a \<notin> set (artifacts [ev])) n \<Longrightarrow> a \<notin> set (artifacts n)"
proof (induction n)
  case Nil
  show ?case by simp
next
  case (Cons ev n)
  have "artifacts (ev # n) = artifacts [ev] @ artifacts n"
    using artifacts_append [of "[ev]" n] by simp
  with Cons show ?case by simp
qed

section \<open>Phases, piece by piece\<close>

lemma climbs_ret: "climbs lo hi (ret x)"
  by (simp add: climbs_def ret_def)

lemma climbs_exit: "climbs lo hi (exit_py k)"
  by (simp add: climbs_def exit_py_def)

lemma climbs_enter: "climbs lo hi (enter k)"
  by (simp add: climbs_def enter_def)

lemma climbs_ext:
  assumes "case phase_of_call c of None \<Rightarrow> True | Some p \<Rightarrow> lo \<le> p \<and> p \<le> hi"
  shows "climbs lo hi (ext w c)"
  unfolding climbs_def
proof (intro allI impI)
  fix h r n
  assume "ext w c h = (r, n)"
  then have n: "n = [Ext c (answer w h c)]"
    by (simp add: ext_def split: resp.splits)
  show "sorted (phases n) \<and> (\<forall>p \<in> set (phases n). lo \<le> p) \<and>
        (\<forall>x. r = Inr x \<longrightarrow> (\<forall>p \<in> set (phases n). p \<le> hi))"
    using assms unfolding n by (cases "phase_of_call c") simp_all
qed

lemma climbs_and_then:
  assumes m: "climbs lo mid m" and f: "\<And>x. climbs mid hi (f x)"
      and le: "lo \<le> mid" "mid \<le> hi"
  shows "climbs lo hi (and_then m f)"
  unfolding climbs_def
proof (intro allI impI)
  fix h r n
  assume "and_then m f h = (r, n)"
  then show "sorted (phases n) \<and> (\<forall>p \<in> set (phases n). lo \<le> p) \<and>
        (\<forall>x. r = Inr x \<longrightarrow> (\<forall>p \<in> set (phases n). p \<le> hi))"
  proof (cases rule: and_then_cases)
    case (stops a)
    from m stops(1) have "sorted (phases n)" "\<forall>p \<in> set (phases n). lo \<le> p"
      unfolding climbs_def by blast+
    with stops(2) show ?thesis by simp
  next
    case (goes_on x n1 n2)
    from m goes_on(1) have s1: "sorted (phases n1)" and l1: "\<forall>p \<in> set (phases n1). lo \<le> p"
      and u1: "\<forall>p \<in> set (phases n1). p \<le> mid"
      unfolding climbs_def by blast+
    from f [of x] goes_on(2) have s2: "sorted (phases n2)"
      and l2: "\<forall>p \<in> set (phases n2). mid \<le> p"
      and u2: "\<forall>y. r = Inr y \<longrightarrow> (\<forall>p \<in> set (phases n2). p \<le> hi)"
      unfolding climbs_def by blast+
    have cross: "a \<le> b" if "a \<in> set (phases n1)" "b \<in> set (phases n2)" for a b
    proof -
      from that u1 l2 have "a \<le> mid" "mid \<le> b" by blast+
      then show ?thesis by simp
    qed
    have sorted: "sorted (phases n)"
      unfolding goes_on(3) using s1 s2 cross by (simp add: sorted_append)
    have lower: "lo \<le> p" if "p \<in> set (phases n)" for p
    proof -
      from that have "p \<in> set (phases n1) \<or> p \<in> set (phases n2)"
        unfolding goes_on(3) by simp
      then show ?thesis
      proof
        assume "p \<in> set (phases n1)"
        with l1 show ?thesis by blast
      next
        assume "p \<in> set (phases n2)"
        with l2 have "mid \<le> p" by blast
        with le(1) show ?thesis by simp
      qed
    qed
    have upper: "p \<le> hi" if "r = Inr y" "p \<in> set (phases n)" for y p
    proof -
      from that(2) have "p \<in> set (phases n1) \<or> p \<in> set (phases n2)"
        unfolding goes_on(3) by simp
      then show ?thesis
      proof
        assume "p \<in> set (phases n1)"
        with u1 have "p \<le> mid" by blast
        with le(2) show ?thesis by simp
      next
        assume "p \<in> set (phases n2)"
        with u2 that(1) show ?thesis by blast
      qed
    qed
    from sorted lower upper show ?thesis by blast
  qed
qed

lemma climbs_if: "climbs lo hi a \<Longrightarrow> climbs lo hi b \<Longrightarrow> climbs lo hi (if c then a else b)"
  by simp

lemma climbs_option:
  "climbs lo hi a \<Longrightarrow> (\<And>y. climbs lo hi (b y)) \<Longrightarrow>
   climbs lo hi (case x of None \<Rightarrow> a | Some y \<Rightarrow> b y)"
  by (simp split: option.splits)

lemma climbs_prod: "(\<And>a b. climbs lo hi (f a b)) \<Longrightarrow> climbs lo hi (case p of (a, b) \<Rightarrow> f a b)"
  by (simp split: prod.splits)

lemma climbs_stay:
  "lo \<le> hi \<Longrightarrow> climbs lo lo m \<Longrightarrow> (\<And>x. climbs lo hi (f x)) \<Longrightarrow> climbs lo hi (and_then m f)"
  by (rule climbs_and_then [where mid = lo]) simp_all

lemma climbs_rise:
  "lo \<le> hi \<Longrightarrow> climbs lo hi m \<Longrightarrow> (\<And>x. climbs hi hi (f x)) \<Longrightarrow> climbs lo hi (and_then m f)"
  by (rule climbs_and_then [where mid = hi]) simp_all

lemma climbs_level:
  "climbs lo lo m \<Longrightarrow> (\<And>x. climbs lo lo (f x)) \<Longrightarrow> climbs lo lo (and_then m f)"
  by (rule climbs_and_then [where mid = lo]) simp_all

lemma climbs_windll:
  assumes "case phase_of_call c of None \<Rightarrow> True | Some p \<Rightarrow> lo \<le> p \<and> p \<le> hi" and "lo \<le> 1"
  shows "climbs lo hi (windll_shell32 plat w c)"
proof (cases "plat = Windows")
  case True
  with climbs_ext [OF assms(1)] show ?thesis by (simp add: windll_shell32_def)
next
  case False
  with assms(2) show ?thesis
    by (simp add: windll_shell32_def climbs_def phase_of_call_def)
qed

text \<open>The block that gives up when there is no window: it never returns.\<close>

lemma climbs_no_window:
  "lo \<le> 5 \<Longrightarrow>
   climbs lo hi (and_then (ext w GlfwTerminate) (\<lambda>_.
                 and_then (ext w (LoggerCritical s)) (\<lambda>_. exit_py k)))"
  unfolding climbs_def
  by (auto simp: and_then_def ext_def exit_py_def phase_of_call_def split: resp.splits)

text \<open>The \<^verbatim>\<open>try\<close> statement of \<^verbatim>\<open>_draw\<close>.\<close>

lemma climbs_draw_try:
  "climbs 3 3 (try_except_AttributeError
     (and_then (ext w (GetattrRender ren)) (\<lambda>_.
      and_then (ext w ImguiGetDrawData) (\<lambda>data. ext w (RendererRender ren data)))))"
  unfolding climbs_def
  by (auto simp: try_except_AttributeError_def and_then_def ext_def phase_of_call_def
           split: resp.splits exn.splits)

lemmas climbs_block =
  climbs_level climbs_ext climbs_windll climbs_if climbs_option climbs_prod
  climbs_ret climbs_exit climbs_enter

lemma climbs_init_glfw: "climbs 1 2 (init_glfw plat w c)"
  unfolding init_glfw_def
  apply ((rule climbs_stay, simp, (intro climbs_block; (simp add: phase_of_call_def; fail))[1])+)
  apply (rule climbs_stay, simp, rule climbs_if, rule climbs_no_window, simp, rule climbs_ret)
  apply (rule climbs_rise, simp, rule climbs_ext, simp add: phase_of_call_def)
  apply ((rule climbs_stay, simp, (intro climbs_block; (simp add: phase_of_call_def; fail))[1])+)
  apply (rule climbs_ret)
  done

lemma climbs_init_head: "climbs 1 2 (init_head plat w c)"
  unfolding init_head_def pre_init_def post_init_def
  apply (rule climbs_stay, simp, (intro climbs_block; (simp add: phase_of_call_def; fail))[1])
  apply (rule climbs_rise, simp, rule climbs_init_glfw)
  apply (intro climbs_block; (simp add: phase_of_call_def; fail))
  done

lemma phases_without:
  "list_all (\<lambda>ev. p \<notin> set (phases [ev])) n \<Longrightarrow> p \<notin> set (phases n)"
proof (induction n)
  case Nil
  show ?case by simp
next
  case (Cons ev n)
  have "phases (ev # n) = phases [ev] @ phases n"
    using phases_append [of "[ev]" n] by simp
  with Cons show ?case by simp
qed

lemma calls_without:
  "list_all (\<lambda>ev. \<forall>c \<in> set (calls [ev]). \<not> P c) n \<Longrightarrow> \<forall>c \<in> set (calls n). \<not> P c"
proof (induction n)
  case Nil
  show ?case by simp
next
  case (Cons ev n)
  have "calls (ev # n) = calls [ev] @ calls n"
    using calls_append [of "[ev]" n] by simp
  with Cons show ?case by auto
qed

section \<open>Every event of a construction\<close>

lemma Window_init_list_all:
  assumes head: "emits Q (init_head plat w c)"
      and body: "\<And>self. cls self = c \<Longrightarrow> emits Q (loop_body w self)"
      and test: "\<And>win r. Q (Ext (GlfwWindowShouldClose win) r)"
      and tail: "\<And>self. cls self = c \<Longrightarrow> emits Q (after_loop w self)"
      and run: "Window_init fuel plat w c h = Some (r, n)"
  shows "list_all Q n"
  using run
proof (cases rule: Window_init_cases)
  case (at_setup a)
  with head show ?thesis by (auto simp: emits_def)
next
  case (in_loop self n1 a n2)
  from in_loop(1) have c: "cls self = c" by (rule init_head_self)
  from head in_loop(1) have "list_all Q n1" by (auto simp: emits_def)
  moreover have "list_all Q n2"
    by (rule glfw_while_list_all [OF body [OF c] test in_loop(2)])
  ultimately show ?thesis using in_loop(4) by simp
next
  case (at_teardown self n1 x n2 n3)
  from at_teardown(1) have c: "cls self = c" by (rule init_head_self)
  from head at_teardown(1) have "list_all Q n1" by (auto simp: emits_def)
  moreover have "list_all Q n2"
    by (rule glfw_while_list_all [OF body [OF c] test at_teardown(2)])
  moreover from tail [OF c] at_teardown(3) have "list_all Q n3" by (auto simp: emits_def)
  ultimately show ?thesis using at_teardown(4) by simp
qed

text \<open>What a setup that returned has done.\<close>

lemma init_glfw_returned:
  assumes "init_glfw plat w c h = (Inr x, n)"
  shows "1 \<in> set (phases n) \<and> 2 \<in> set (phases n) \<and> Log \<notin> set (artifacts n) \<and>
         entered PreInit n = 0 \<and> entered PostInit n = 0 \<and> entered PreExitLoop n = 0 \<and>
         plat = Windows \<and>
         ImguiSetIniFileName (if IMGUI_USE_INI c then Some (imgui_ini_path c) else None)
           \<in> set (calls n)"
  using assms unfolding init_glfw_def
  by (auto simp: run_simps phase_of_call_def writes_def split: if_splits option.splits prod.splits)

lemma init_head_returned:
  assumes "init_head plat w c h = (Inr self, n)"
  shows "set (phases n) = {1, 2} \<and> Log \<notin> set (artifacts n) \<and> tests n = [] \<and>
         entered PreInit n = 1 \<and> entered PostInit n = 1 \<and> entered PreExitLoop n = 0 \<and>
         plat = Windows \<and>
         ImguiSetIniFileName (if IMGUI_USE_INI c then Some (imgui_ini_path c) else None)
           \<in> set (calls n)"
proof -
  from assms obtain v1 m1 x m2 v3 m3 v4 m4 where
    pre: "pre_init w c h = (Inr v1, m1)" and
    glfw: "init_glfw plat w c (h @ m1) = (Inr x, m2)" and
    cb: "ext w (GlfwSetWindowRefreshCallback (fst x)) (h @ m1 @ m2) = (Inr v3, m3)" and
    post: "post_init w c (h @ m1 @ m2 @ m3) = (Inr v4, m4)" and
    n: "n = m1 @ m2 @ m3 @ m4"
    unfolding init_head_def
    by (auto simp: and_then_Inr ret_Inr split: prod.splits)
  note g = init_glfw_returned [OF glfw]
  from climbs_init_glfw [of plat w c] glfw have bounds: "\<forall>p \<in> set (phases m2). 1 \<le> p \<and> p \<le> 2"
    unfolding climbs_def by blast
  have m1: "phases m1 = []" "artifacts m1 = []" "tests m1 = []" "calls m1 = [] \<or> calls m1 = [Override PreInit]"
    "entered PreInit m1 = 1" "entered PostInit m1 = 0" "entered PreExitLoop m1 = 0"
    using pre unfolding pre_init_def
    by (auto simp: run_simps phase_of_call_def writes_def split: if_splits)
  have m3: "phases m3 = []" "artifacts m3 = []" "tests m3 = []"
    "entered PreInit m3 = 0" "entered PostInit m3 = 0" "entered PreExitLoop m3 = 0"
    using cb by (auto simp: run_simps phase_of_call_def writes_def)
  have m4: "phases m4 = []" "artifacts m4 = []" "tests m4 = []"
    "entered PreInit m4 = 0" "entered PostInit m4 = 1" "entered PreExitLoop m4 = 0"
    using post unfolding post_init_def
    by (auto simp: run_simps phase_of_call_def writes_def split: if_splits)
  have t2: "tests m2 = []"
  proof -
    have "emits (\<lambda>ev. tests [ev] = []) (init_glfw plat w c)"
      unfolding init_glfw_def by (intro emits_intros) simp_all
    with glfw show ?thesis by (auto simp: emits_def dest: tests_empty)
  qed
  have "set (phases m2) = {1, 2}"
  proof
    show "set (phases m2) \<subseteq> {1, 2}"
    proof
      fix p assume "p \<in> set (phases m2)"
      with bounds have "1 \<le> p \<and> p \<le> 2" by blast
      then show "p \<in> {1, 2}" by auto
    qed
    show "{1, 2} \<subseteq> set (phases m2)" using g by simp
  qed
  with g m1 m3 m4 t2 show ?thesis unfolding n by auto
qed

section \<open>The two ways \<^verbatim>\<open>_init_glfw\<close> gives up\<close>

lemma init_glfw_Exit:
  assumes "init_glfw plat w c h = (Inl (Exit code), n)"
  shows "code = 1 \<and>
     ((failed GlfwInit n \<and>
       calls n = [GlfwInit, LoggerCritical ''Could not initialize OpenGL context'']) \<or>
      (failed (GlfwCreateWindow (WINDOW_WIDTH c) (WINDOW_HEIGHT c) (WINDOW_TITLE c)) n \<and>
       suffix [GlfwTerminate, LoggerCritical ''Could not initialize Window''] (calls n)))"
  using assms unfolding init_glfw_def
  by (auto simp: run_simps suffix_def split: if_splits option.splits prod.splits)

lemma init_glfw_failed:
  assumes "init_glfw plat w c h = (r, n)"
      and "failed GlfwInit n \<or>
           failed (GlfwCreateWindow (WINDOW_WIDTH c) (WINDOW_HEIGHT c) (WINDOW_TITLE c)) n"
      and "\<not> raised r"
  shows "r = Inl (Exit 1)"
proof (cases r)
  case (Inl a)
  show ?thesis
  proof (cases a)
    case (Exit k)
    with Inl assms(1) init_glfw_Exit show ?thesis by blast
  next
    case (Raised e)
    with Inl assms(3) show ?thesis by simp
  qed
next
  case (Inr x)
  with assms(1,2) show ?thesis unfolding init_glfw_def
    by (auto simp: run_simps split: if_splits option.splits prod.splits)
qed

lemma init_glfw_null:
  assumes "init_glfw plat w c h = (Inl (Exit 1), n)"
      and "failed (GlfwCreateWindow (WINDOW_WIDTH c) (WINDOW_HEIGHT c) (WINDOW_TITLE c)) n"
  shows "\<exists>win. \<not> truthy win \<and>
            suffix ([GlfwCreateWindow (WINDOW_WIDTH c) (WINDOW_HEIGHT c) (WINDOW_TITLE c),
                     GlfwMakeContextCurrent win] @ icon_calls c win @
                    [GlfwTerminate, LoggerCritical ''Could not initialize Window''])
                   (calls n)"
  using assms unfolding init_glfw_def
  apply (simp add: run_simps split: if_splits option.splits prod.splits)
  apply (auto simp: suffix_def icon_calls_def)
  done

section \<open>The loop, the way out, and the whole construction\<close>

lemma after_loop_trace:
  assumes "after_loop w self h = (r, n)"
  shows "sorted (phases n) \<and> set (phases n) \<subseteq> {4, 5} \<and> tests n = [] \<and>
         Log \<notin> set (artifacts n) \<and> (\<forall>k. r \<noteq> Inl (Exit k)) \<and> entered PreExitLoop n = 1 \<and>
         (\<not> overrides (cls self) PreExitLoop \<longrightarrow>
            ImguiSaveIniSettingsToDisk (imgui_ini_path (cls self)) \<in> set (calls n)) \<and>
         (\<forall>x. r = Inr x \<longrightarrow> x = VNone \<and> phases n = [4, 5] \<and>
            suffix [RendererShutdown (renderer self), GlfwTerminate] (calls n) \<and>
            (\<not> overrides (cls self) PreExitLoop \<longrightarrow>
               calls n = [ImguiSaveIniSettingsToDisk (imgui_ini_path (cls self)),
                          RendererShutdown (renderer self), GlfwTerminate]))"
proof (cases r)
  case (Inl a)
  with assms show ?thesis unfolding after_loop_def pre_exit_loop_def
    by (auto simp: run_simps phase_of_call_def writes_def split: if_splits)
next
  case (Inr x)
  with assms show ?thesis unfolding after_loop_def pre_exit_loop_def
    by (auto simp: run_simps phase_of_call_def writes_def suffix_def split: if_splits)
qed

text \<open>What the events of each part say about phases, artifacts, tests and hooks.\<close>

lemma setup_event_facts:
  assumes "setup_event c ev"
  shows "3 \<notin> set (phases [ev])" and "4 \<notin> set (phases [ev])" and "tests [ev] = []"
    and "set (artifacts [ev]) \<subseteq> {Directory (IMGUI_INI_DIR c), Stdout, Log}"
    and "ev \<noteq> Enter PreExitLoop" and "ev \<noteq> Enter PostExitLoop" and "ev \<noteq> Enter ResizeEvent"
    and "\<forall>p. ev \<noteq> Ext (ImguiSaveIniSettingsToDisk p) r"
    and "\<not> IMGUI_USE_INI c \<longrightarrow>
           (\<forall>p r. ev \<noteq> Ext (ImguiLoadIniSettingsFromDisk p) r \<and>
                  ev \<noteq> Ext (ImguiSetIniFileName (Some p)) r \<and> ev \<noteq> Ext (Print p') r)"
  using assms
  by (auto simp: setup_event_def phase_of_call_def writes_def split: event.splits call.splits)

lemma loop_event_facts:
  assumes "loop_event c ev"
  shows "set (phases [ev]) \<subseteq> {3}" and "set (artifacts [ev]) \<subseteq> {Stdout}"
    and "\<forall>k. ev = Enter k \<longrightarrow> k = ResizeEvent"
    and "\<forall>p r. ev \<noteq> Ext (ImguiLoadIniSettingsFromDisk p) r \<and>
               ev \<noteq> Ext (ImguiSetIniFileName q) r \<and>
               ev \<noteq> Ext (ImguiSaveIniSettingsToDisk p) r"
  using assms
  by (auto simp: loop_event_def phase_of_call_def writes_def split: event.splits call.splits)

lemma teardown_event_facts:
  assumes "teardown_event c ev"
  shows "set (phases [ev]) \<subseteq> {4, 5}" and "set (artifacts [ev]) \<subseteq> {File (imgui_ini_path c)}"
    and "\<forall>k. ev = Enter k \<longrightarrow> k = PreExitLoop" and "tests [ev] = []"
    and "\<forall>p r. ev \<noteq> Ext (ImguiLoadIniSettingsFromDisk p) r \<and>
               ev \<noteq> Ext (ImguiSetIniFileName q) r"
  using assms
  by (auto simp: teardown_event_def phase_of_call_def writes_def
           split: event.splits call.splits)

lemma glfw_while_events:
  assumes "glfw_while fuel w self h = Some (r, n)"
  shows "list_all (loop_event (cls self)) n"
  by (rule glfw_while_list_all [OF emits_loop_body_events _ assms])
     (simp add: loop_event_def)

lemma list_all_weaken: "list_all P n \<Longrightarrow> (\<And>ev. P ev \<Longrightarrow> Q ev) \<Longrightarrow> list_all Q n"
  unfolding list_all_iff by blast

lemma glfw_while_phases:
  assumes "glfw_while fuel w self h = Some (r, n)"
  shows "set (phases n) = {3} \<and> sorted (phases n) \<and> Log \<notin> set (artifacts n) \<and>
         set (artifacts n) \<subseteq> {Stdout}"
proof -
  note all = glfw_while_events [OF assms]
  from all have "list_all (\<lambda>ev. set (phases [ev]) \<subseteq> {3}) n"
    by (rule list_all_weaken) (rule loop_event_facts)
  then have sub: "set (phases n) \<subseteq> {3}" by (rule phases_subset)
  from all have "list_all (\<lambda>ev. set (artifacts [ev]) \<subseteq> {Stdout}) n"
    by (rule list_all_weaken) (rule loop_event_facts)
  then have arts: "set (artifacts n) \<subseteq> {Stdout}" by (rule artifacts_subset)
  then have nolog: "Log \<notin> set (artifacts n)" by auto
  from glfw_while_tests [OF assms] have "3 \<in> set (phases n)" by (rule tests_phase)
  with sub have eq: "set (phases n) = {3}" by auto
  have "sorted (phases n)"
  proof -
    have "\<forall>p \<in> set (phases n). p = 3" using sub by auto
    then have "phases n = replicate (length (phases n)) 3"
      by (simp add: replicate_length_same)
    then show ?thesis by (metis sorted_replicate)
  qed
  with eq nolog arts show ?thesis by simp
qed

lemma glfw_while_hooks:
  assumes "glfw_while fuel w self h = Some (r, n)" and "k \<noteq> ResizeEvent"
  shows "entered k n = 0"
proof -
  from glfw_while_events [OF assms(1)] have "list_all (\<lambda>ev. ev \<noteq> Enter k) n"
  proof (rule list_all_weaken)
    fix ev assume "loop_event (cls self) ev"
    from loop_event_facts(3) [OF this] assms(2) show "ev \<noteq> Enter k" by blast
  qed
  then show ?thesis by (rule entered_zero)
qed

lemma init_head_events:
  assumes "init_head plat w c h = (r, n)"
  shows "list_all (setup_event c) n"
  using emits_init_head_events [of c plat w] assms by (simp add: emits_def)

lemma after_loop_events:
  assumes "after_loop w self h = (r, n)"
  shows "list_all (teardown_event (cls self)) n"
  using emits_after_loop_events [of self w] assms by (simp add: emits_def)

lemma init_head_Exit:
  assumes "init_head plat w c h = (Inl (Exit k), n)"
  shows "k = 1 \<and>
         (failed GlfwInit n \<or>
          failed (GlfwCreateWindow (WINDOW_WIDTH c) (WINDOW_HEIGHT c) (WINDOW_TITLE c)) n) \<and>
         (suffix [LoggerCritical ''Could not initialize OpenGL context''] (calls n) \<or>
          suffix [GlfwTerminate, LoggerCritical ''Could not initialize Window''] (calls n))"
proof -
  from assms obtain v1 m1 m2 where
    pre: "pre_init w c h = (Inr v1, m1)" and
    glfw: "init_glfw plat w c (h @ m1) = (Inl (Exit k), m2)" and
    n: "n = m1 @ m2"
    unfolding init_head_def pre_init_def post_init_def
    by (auto simp: run_simps split: prod.splits if_splits)
  from init_glfw_Exit [OF glfw] show ?thesis
    unfolding n by (auto simp: suffix_def)
qed

section \<open>Every construction\<close>

lemma Window_init_events:
  assumes "Window_init fuel plat w c h = Some (r, n)"
  shows "list_all (window_event c) n"
proof (rule Window_init_list_all [OF _ _ _ _ assms])
  show "emits (window_event c) (init_head plat w c)"
    by (rule emits_weaken [OF emits_init_head_events]) (simp add: window_event_def)
  show "emits (window_event c) (loop_body w self)" if "cls self = c" for self
    using emits_loop_body_events [of self w] that
    by (auto intro: emits_weaken simp: window_event_def)
  show "window_event c (Ext (GlfwWindowShouldClose win) a)" for win a
    by (simp add: window_event_def loop_event_def)
  show "emits (window_event c) (after_loop w self)" if "cls self = c" for self
    using emits_after_loop_events [of self w] that
    by (auto intro: emits_weaken simp: window_event_def)
qed

lemma Window_init_answered:
  assumes "Window_init fuel plat w c h = Some (r, n)"
  shows "answered_by plat w h n"
  using assms
proof (cases rule: Window_init_cases)
  case (at_setup a)
  with faithful_init_head [of plat w c] show ?thesis by (simp add: faithful_def)
next
  case (in_loop self n1 a n2)
  from faithful_init_head [of plat w c] in_loop(1) have "answered_by plat w h n1"
    by (simp add: faithful_def)
  with glfw_while_answered [OF in_loop(2), of plat] in_loop(4) show ?thesis
    by (simp add: answered_by_append)
next
  case (at_teardown self n1 x n2 n3)
  from faithful_init_head [of plat w c] at_teardown(1) have 1: "answered_by plat w h n1"
    by (simp add: faithful_def)
  from glfw_while_answered [OF at_teardown(2), of plat]
  have 2: "answered_by plat w (h @ n1) n2" .
  from faithful_after_loop [of plat w self] at_teardown(3)
  have 3: "answered_by plat w ((h @ n1) @ n2) n3" by (simp add: faithful_def)
  from 1 2 3 show ?thesis unfolding at_teardown(4) by (simp add: answered_by_append)
qed

lemma Window_init_propagates:
  assumes "Window_init fuel plat w c h = Some (r, n)"
  shows "propagates in_draw_try r n"
  using assms
proof (cases rule: Window_init_cases)
  case (at_setup a)
  from passes_on_init_head [of plat w c] at_setup(1)
  have "propagates in_draw_try (Inl a :: abort + Window) n" by (simp add: passes_on_def)
  with at_setup(2) show ?thesis using propagates_Inl by blast
next
  case (in_loop self n1 a n2)
  from passes_on_init_head [of plat w c] in_loop(1)
  have "propagates in_draw_try (Inr self) n1" by (simp add: passes_on_def)
  with glfw_while_propagates [OF in_loop(2)] in_loop(3,4) show ?thesis
    by (simp add: propagates_append)
next
  case (at_teardown self n1 x n2 n3)
  from passes_on_init_head [of plat w c] at_teardown(1)
  have 1: "propagates in_draw_try (Inr self) n1" by (simp add: passes_on_def)
  from glfw_while_propagates [OF at_teardown(2)]
  have 2: "propagates in_draw_try (Inr x) n2" .
  from passes_on_after_loop [of w self] at_teardown(3)
  have 3: "propagates in_draw_try r n3" by (simp add: passes_on_def)
  from 1 2 3 show ?thesis
    unfolding at_teardown(4) by (simp add: propagates_append)
qed

lemma Window_init_resumes:
  assumes "Window_init fuel plat w c h = Some (r, n)"
  shows "resumes n"
  using assms
proof (cases rule: Window_init_cases)
  case (at_setup a)
  with steady_init_head [of plat w c] show ?thesis by (simp add: steady_def)
next
  case (in_loop self n1 a n2)
  from steady_init_head [of plat w c] in_loop(1) have "resumes n1" by (simp add: steady_def)
  with glfw_while_resumes [OF in_loop(2)] in_loop(4) show ?thesis
    by (simp add: resumes_append)
next
  case (at_teardown self n1 x n2 n3)
  from steady_init_head [of plat w c] at_teardown(1) have "resumes n1"
    by (simp add: steady_def)
  moreover from glfw_while_resumes [OF at_teardown(2)] have "resumes n2" .
  moreover from steady_after_loop [of w self] at_teardown(3) have "resumes n3"
    by (simp add: steady_def)
  ultimately show ?thesis unfolding at_teardown(4) by (simp add: resumes_append)
qed

lemma Window_init_Exit:
  assumes "Window_init fuel plat w c h = Some (Inl (Exit k), n)"
  shows "k = 1 \<and>
         (failed GlfwInit n \<or>
          failed (GlfwCreateWindow (WINDOW_WIDTH c) (WINDOW_HEIGHT c) (WINDOW_TITLE c)) n) \<and>
         (suffix [LoggerCritical ''Could not initialize OpenGL context''] (calls n) \<or>
          suffix [GlfwTerminate, LoggerCritical ''Could not initialize Window''] (calls n))"
  using assms
proof (cases rule: Window_init_cases)
  case (at_setup a)
  then have "init_head plat w c h = (Inl (Exit k), n)" by simp
  then show ?thesis by (rule init_head_Exit)
next
  case (in_loop self n1 a n2)
  from glfw_while_trace [OF in_loop(2)] have "a \<noteq> Exit k" by blast
  with in_loop(3) show ?thesis by simp
next
  case (at_teardown self n1 x n2 n3)
  from after_loop_trace [OF at_teardown(3)] have False by blast
  then show ?thesis ..
qed

lemma Window_init_Inr:
  assumes "Window_init fuel plat w c h = Some (Inr x, n)"
  shows "x = VNone"
  using assms
proof (cases rule: Window_init_cases)
  case (at_teardown self n1 y n2 n3)
  from after_loop_trace [OF at_teardown(3)] show ?thesis by simp
qed simp_all

text \<open>Fuel is only a bound: more of it changes no construction that ended.\<close>

lemma Window_init_more_fuel:
  assumes "Window_init fuel plat w c h = Some x"
  shows "Window_init (fuel + extra) plat w c h = Some x"
proof (cases "init_head plat w c h")
  case (Pair r n1)
  show ?thesis
  proof (cases r)
    case (Inl a)
    with Pair assms show ?thesis by (simp add: Window_init_def run_then_def)
  next
    case (Inr self)
    show ?thesis
    proof (cases "glfw_while fuel w self (h @ n1)")
      case None
      with Pair Inr assms show ?thesis
        by (simp add: Window_init_def run_then_def glfw_loop_def then_run_def)
    next
      case (Some y)
      from glfw_while_more_fuel [OF Some, of extra] Some Pair Inr assms show ?thesis
        by (simp add: Window_init_def run_then_def glfw_loop_def then_run_def)
    qed
  qed
qed

section \<open>Libraries that oblige\<close>

text \<open>A false answer in a trace the libraries gave is an answer of theirs.\<close>

lemma answered_by_failed:
  assumes "answered_by plat w h n" and "failed c n" and "c \<noteq> CtypesWindll"
  shows "\<exists>h'. \<not> is_set (answer w h' c)"
proof -
  from assms(2) obtain v where v: "Ext c (Ret v) \<in> set n" "\<not> truthy v"
    unfolding failed_def by blast
  from answered_by_mem [OF assms(1) v(1)] assms(3) obtain h' where "Ret v = answer w h' c"
    by blast
  with v(2) have "\<not> is_set (answer w h' c)" by (metis is_set.simps(1))
  then show ?thesis ..
qed

lemma init_head_returns:
  assumes "never_raises w" and "\<And>h'. is_set (answer w h' GlfwInit)"
      and "\<And>h' x y t. is_set (answer w h' (GlfwCreateWindow x y t))"
  shows "\<exists>self n. init_head Windows w c h = (Inr self, n)"
proof -
  obtain r n where run: "init_head Windows w c h = (r, n)"
    by (cases "init_head Windows w c h")
  from faithful_init_head [of Windows w c] run have ans: "answered_by Windows w h n"
    by (simp add: faithful_def)
  from passes_on_init_head [of Windows w c] run have "propagates in_draw_try r n"
    by (simp add: passes_on_def)
  with ans assms(1) have nr: "\<not> raised r" by (rule answered_by_never_raises)
  have "r \<noteq> Inl (Exit k)" for k
  proof
    assume "r = Inl (Exit k)"
    with run have "init_head Windows w c h = (Inl (Exit k), n)" by simp
    from init_head_Exit [OF this] have
      "failed GlfwInit n \<or>
       failed (GlfwCreateWindow (WINDOW_WIDTH c) (WINDOW_HEIGHT c) (WINDOW_TITLE c)) n"
      by simp
    then show False
    proof
      assume "failed GlfwInit n"
      from answered_by_failed [OF ans this] assms(2) show False by simp
    next
      assume "failed (GlfwCreateWindow (WINDOW_WIDTH c) (WINDOW_HEIGHT c) (WINDOW_TITLE c)) n"
      from answered_by_failed [OF ans this] assms(3) show False by simp
    qed
  qed
  with nr run show ?thesis by (cases r) (auto elim: raised.elims)
qed

lemma after_loop_returns:
  assumes "never_raises w"
  shows "\<exists>n. after_loop w self h = (Inr VNone, n)"
proof -
  obtain r n where run: "after_loop w self h = (r, n)" by (cases "after_loop w self h")
  from faithful_after_loop [of Windows w self] run have ans: "answered_by Windows w h n"
    by (simp add: faithful_def)
  from passes_on_after_loop [of w self] run have "propagates in_draw_try r n"
    by (simp add: passes_on_def)
  with ans assms have "\<not> raised r" by (rule answered_by_never_raises)
  with after_loop_trace [OF run] run show ?thesis by (cases r) (auto elim: raised.elims)
qed

text \<open>With libraries that oblige, the construction returns once the window is closed.\<close>

lemma Window_init_returns:
  assumes "obliging plat w k"
  shows "\<exists>n. Window_init (Suc k) plat w c h = Some (Inr VNone, n)"
proof -
  from assms have plat: "plat = Windows" and nr: "never_raises w" and cl: "closes_after k w"
    and i: "\<And>h'. is_set (answer w h' GlfwInit)"
    and cw: "\<And>h' x y t. is_set (answer w h' (GlfwCreateWindow x y t))"
    unfolding obliging_def by blast+
  from init_head_returns [OF nr i cw, of c h] plat obtain self n1 where
    1: "init_head plat w c h = (Inr self, n1)" by blast
  from glfw_while_returns [OF nr cl, of self "h @ n1"] obtain n2 where
    2: "glfw_while (Suc k) w self (h @ n1) = Some (Inr VNone, n2)" by blast
  from after_loop_returns [OF nr, of self "h @ n1 @ n2"] obtain n3 where
    3: "after_loop w self (h @ n1 @ n2) = (Inr VNone, n3)" by blast
  from 1 2 3 have "Window_init (Suc k) plat w c h = Some (Inr VNone, n1 @ n2 @ n3)"
    by (simp add: Window_init_def run_then_def glfw_loop_def then_run_def)
  then show ?thesis ..
qed

section \<open>Sample runs\<close>

lemmas sample_simps =
  demo_world_def demo_answer_def demo_class_def demo_self_def answering_def no_glfw_world_def
  no_window_world_def stale_renderer_world_def no_ini_class_def icon_class_def demo_ini_def
  setup_trace_def rendered_def not_rendered_def draw_trace_def frame_trace_def
  resized_frame_trace_def closing_trace_def window_trace_def no_ini_trace_def
  no_glfw_trace_def no_window_trace_def

lemma obliging_demo: "obliging Windows (demo_world k j) k"
  by (auto simp: obliging_def never_raises_def closes_after_def demo_world_def demo_answer_def
           split: call.splits)

lemma never_raises_demo: "never_raises (demo_world k j)"
  by (auto simp: never_raises_def demo_world_def demo_answer_def split: call.splits)

lemma closes_after_demo: "closes_after k (demo_world k j)"
  by (auto simp: closes_after_def demo_world_def demo_answer_def)

lemma run_demo:
  "Window_init 2 Windows (demo_world 1 0) demo_class [] = Some (Inr VNone, window_trace rendered)"
  by (simp add: eval_simps sample_simps numeral_2_eq_2)

lemma run_stale:
  "Window_init 2 Windows stale_renderer_world demo_class [] =
     Some (Inr VNone, window_trace not_rendered)"
  by (simp add: eval_simps sample_simps numeral_2_eq_2)

lemma run_no_ini:
  "Window_init 1 Windows (demo_world 0 0) no_ini_class [] = Some (Inr VNone, no_ini_trace)"
  by (simp add: eval_simps sample_simps)

lemma run_no_glfw:
  "init_glfw Windows no_glfw_world demo_class [] = (Inl (Exit 1), no_glfw_trace)"
  by (simp add: eval_simps sample_simps)

lemma run_no_window:
  "init_glfw Windows no_window_world icon_class [] = (Inl (Exit 1), no_window_trace)"
  by (simp add: eval_simps sample_simps)

lemma run_posix:
  "init_glfw Posix (demo_world 0 0) demo_class [] =
     (Inl (Raised AttributeError),
      [Ext GlfwInit (Ret (VInt 1)), Ext CtypesWindll (Raise AttributeError)])"
  by (simp add: eval_simps sample_simps)

lemma run_setup:
  "init_glfw Windows (demo_world 0 0) demo_class [] = (Inr (VPtr 1, VObj 2), setup_trace)"
  by (simp add: eval_simps sample_simps)

lemma run_loop:
  "glfw_while 2 (demo_world 1 0) demo_self [] =
     Some (Inr VNone,
           frame_trace rendered @ [Ext (GlfwWindowShouldClose (VPtr 1)) (Ret (VInt 1))])"
  by (simp add: eval_simps sample_simps numeral_2_eq_2)

lemma run_resized:
  "glfw_while 2 (demo_world 1 1) demo_self [] =
     Some (Inr VNone,
           resized_frame_trace @ [Ext (GlfwWindowShouldClose (VPtr 1)) (Ret (VInt 1))])"
  by (simp add: eval_simps sample_simps numeral_2_eq_2)

section \<open>The claims\<close>

subsection \<open>C7: the icon\<close>

lemma answered_by_nth:
  "answered_by plat w h n \<Longrightarrow> i < length n \<Longrightarrow> n ! i = Ext c r \<Longrightarrow> c \<noteq> CtypesWindll \<Longrightarrow>
     r = answer w (h @ take i n) c"
proof (induction n arbitrary: h i)
  case Nil
  then show ?case by simp
next
  case (Cons ev n)
  show ?case
  proof (cases i)
    case 0
    with Cons.prems show ?thesis by simp
  next
    case (Suc j)
    from Cons.prems(1) have "answered_by plat w (h @ [ev]) n" by (cases ev) simp_all
    from Cons.IH [OF this, of j] Cons.prems(2,3,4) Suc show ?thesis by simp
  qed
qed

lemma faithful_Icon_loop: "faithful plat w (Icon_loop w paths imgs)"
  by (induction paths arbitrary: imgs) (simp_all add: faithful_ret faithful_and_then faithful_ext)

lemma Icon_loop_run:
  "Icon_loop w paths imgs h = (r, n) \<Longrightarrow>
     length n \<le> length paths \<and> calls n = map ImageOpen (take (length n) paths) \<and>
     (\<forall>out. r = Inr out \<longrightarrow>
        (\<exists>new. out = imgs @ new \<and> length new = length paths \<and>
               n = map2 (\<lambda>p v. Ext (ImageOpen p) (Ret v)) paths new)) \<and>
     (\<forall>a. r = Inl a \<longrightarrow>
        (\<exists>e. a = Raised e \<and> n \<noteq> [] \<and>
             last n = Ext (ImageOpen (paths ! (length n - 1))) (Raise e))) \<and>
     ((\<forall>h' p. p \<in> set paths \<longrightarrow> (\<exists>v. answer w h' (ImageOpen p) = Ret v)) \<longrightarrow>
        (\<exists>out. r = Inr out))"
proof (induction paths arbitrary: imgs h r n)
  case Nil
  then show ?case by (auto simp: ret_def)
next
  case (Cons p rest)
  from Cons.prems have
    "and_then (ext w (ImageOpen p)) (\<lambda>img. Icon_loop w rest (imgs @ [img])) h = (r, n)"
    by simp
  then show ?case
  proof (cases rule: and_then_cases)
    case (stops a)
    from stops(1) obtain e where
      e: "answer w h (ImageOpen p) = Raise e" "a = Raised e" "n = [Ext (ImageOpen p) (Raise e)]"
      by (auto simp: ext_Inl)
    have "\<not> (\<forall>h' q. q \<in> set (p # rest) \<longrightarrow> (\<exists>v. answer w h' (ImageOpen q) = Ret v))"
    proof
      assume "\<forall>h' q. q \<in> set (p # rest) \<longrightarrow> (\<exists>v. answer w h' (ImageOpen q) = Ret v)"
      then obtain v where "answer w h (ImageOpen p) = Ret v" by auto
      with e(1) show False by simp
    qed
    with e stops(2) show ?thesis by simp
  next
    case (goes_on img n1 n2)
    from goes_on(1) have n1: "n1 = [Ext (ImageOpen p) (Ret img)]"
      and ans: "answer w h (ImageOpen p) = Ret img"
      by (simp_all add: ext_Inr)
    note IH = Cons.IH [OF goes_on(2)]
    have n: "n = Ext (ImageOpen p) (Ret img) # n2" using goes_on(3) n1 by simp
    show ?thesis
    proof (intro conjI allI impI)
      show "length n \<le> length (p # rest)" using IH n by simp
      show "calls n = map ImageOpen (take (length n) (p # rest))" using IH n by simp
    next
      fix out assume "r = Inr out"
      with IH obtain new where
        "out = (imgs @ [img]) @ new" "length new = length rest"
        "n2 = map2 (\<lambda>p v. Ext (ImageOpen p) (Ret v)) rest new"
        by blast
      then show "\<exists>new. out = imgs @ new \<and> length new = length (p # rest) \<and>
               n = map2 (\<lambda>p v. Ext (ImageOpen p) (Ret v)) (p # rest) new"
        using n by (intro exI [of _ "img # new"]) simp
    next
      fix a assume "r = Inl a"
      with IH obtain e where e: "a = Raised e" "n2 \<noteq> []"
        "last n2 = Ext (ImageOpen (rest ! (length n2 - 1))) (Raise e)"
        by blast
      from e(2) have "(p # rest) ! (length n - 1) = rest ! (length n2 - 1)"
        unfolding n by (cases n2) simp_all
      with e show "\<exists>e. a = Raised e \<and> n \<noteq> [] \<and>
             last n = Ext (ImageOpen ((p # rest) ! (length n - 1))) (Raise e)"
        unfolding n by simp
    next
      assume "\<forall>h' q. q \<in> set (p # rest) \<longrightarrow> (\<exists>v. answer w h' (ImageOpen q) = Ret v)"
      then have "\<forall>h' q. q \<in> set rest \<longrightarrow> (\<exists>v. answer w h' (ImageOpen q) = Ret v)" by simp
      with IH show "\<exists>out. r = Inr out" by blast
    qed
  qed
qed

lemma Icon_demo_run:
  "Icon_init (demo_world 0 0) [''a.png'', ''bc.png''] [] =
     (Inr \<lparr>images = [VObj 5, VObj 6]\<rparr>,
      [Ext (ImageOpen ''a.png'') (Ret (VObj 5)), Ext (ImageOpen ''bc.png'') (Ret (VObj 6))])"
  by (simp add: Icon_init_def and_then_def ext_def ret_def demo_world_def demo_answer_def)

text \<open>
  Claim C7, as the code has it: \<^verbatim>\<open>Icon\<close> opens the images, it does not decode them.
  Whatever the libraries do and whatever the list of paths (the empty one included),
  constructing an \<^verbatim>\<open>Icon\<close> calls \<^verbatim>\<open>Image.open\<close> on the paths in their order, once each, up
  to the first call that raises, and calls nothing else (so never \<^verbatim>\<open>Image.load\<close>, which
  would decode), and every recorded answer is the one the libraries gave. If the
  construction returns, there was one call for each path, \<^verbatim>\<open>glfw_images\<close> is the list of
  the images those calls returned, in the order of the paths, one for each path, and the
  image at position \<open>i\<close> is the libraries' answer to opening path \<open>i\<close> after the
  first \<open>i\<close> calls. If it does not return, the last call raised and that exception is
  the outcome. If the libraries open every one of the paths, the construction returns.
\<close>

theorem Icon_init_opens_each_path_once:
  "\<exists>r n. Icon_init w ordered_icon_paths h = (r, n) \<and>
     answered_by plat w h n \<and>
     calls n = map ImageOpen (take (length n) ordered_icon_paths) \<and>
     (\<forall>icon. r = Inr icon \<longrightarrow>
        length (glfw_images icon) = length ordered_icon_paths \<and>
        n = map2 (\<lambda>p img. Ext (ImageOpen p) (Ret img)) ordered_icon_paths (glfw_images icon) \<and>
        (\<forall>i < length ordered_icon_paths.
           answer w (h @ take i n) (ImageOpen (ordered_icon_paths ! i)) =
             Ret (glfw_images icon ! i))) \<and>
     (\<forall>a. r = Inl a \<longrightarrow>
        (\<exists>e. a = Raised e \<and> n \<noteq> [] \<and>
             last n = Ext (ImageOpen (ordered_icon_paths ! (length n - 1))) (Raise e))) \<and>
     ((\<forall>h' p. p \<in> set ordered_icon_paths \<longrightarrow> (\<exists>v. answer w h' (ImageOpen p) = Ret v)) \<longrightarrow>
        (\<exists>icon. r = Inr icon))"
proof -
  let ?paths = ordered_icon_paths
  obtain r0 n where loop: "Icon_loop w ?paths [] h = (r0, n)"
    by (cases "Icon_loop w ?paths [] h")
  note run = Icon_loop_run [OF loop]
  from faithful_Icon_loop [of plat w ?paths "[]"] loop have ans: "answered_by plat w h n"
    by (simp add: faithful_def)
  define r where "r = (case r0 of Inl a \<Rightarrow> Inl a | Inr imgs \<Rightarrow> Inr \<lparr>images = imgs\<rparr>)"
  have init: "Icon_init w ?paths h = (r, n)"
    using loop by (cases r0) (simp_all add: Icon_init_def and_then_def ret_def r_def)
  have ok: "length (glfw_images icon) = length ?paths \<and>
        n = map2 (\<lambda>p img. Ext (ImageOpen p) (Ret img)) ?paths (glfw_images icon) \<and>
        (\<forall>i < length ?paths.
           answer w (h @ take i n) (ImageOpen (?paths ! i)) = Ret (glfw_images icon ! i))"
    if "r = Inr icon" for icon
  proof -
    from that have r0: "r0 = Inr (glfw_images icon)"
      by (cases r0) (auto simp: r_def glfw_images_def)
    with run have len: "length (glfw_images icon) = length ?paths"
      and n: "n = map2 (\<lambda>p img. Ext (ImageOpen p) (Ret img)) ?paths (glfw_images icon)"
      by auto
    have "answer w (h @ take i n) (ImageOpen (?paths ! i)) = Ret (glfw_images icon ! i)"
      if "i < length ?paths" for i
    proof -
      from that len n have "i < length n"
        and "n ! i = Ext (ImageOpen (?paths ! i)) (Ret (glfw_images icon ! i))"
        by simp_all
      from answered_by_nth [OF ans this] show ?thesis by simp
    qed
    with len n show ?thesis by blast
  qed
  have bad: "\<exists>e. a = Raised e \<and> n \<noteq> [] \<and>
             last n = Ext (ImageOpen (?paths ! (length n - 1))) (Raise e)"
    if "r = Inl a" for a
  proof -
    from that have "r0 = Inl a" by (cases r0) (auto simp: r_def)
    with run show ?thesis by blast
  qed
  have good: "\<exists>icon. r = Inr icon"
    if "\<forall>h' p. p \<in> set ?paths \<longrightarrow> (\<exists>v. answer w h' (ImageOpen p) = Ret v)"
  proof -
    from run that obtain out where "r0 = Inr out" by blast
    then show ?thesis by (simp add: r_def)
  qed
  from run have "calls n = map ImageOpen (take (length n) ?paths)" by simp
  with init ans ok bad good show ?thesis by blast
qed

theorem Icon_init_opens_each_path_once_witness:
  "Icon_init (demo_world 0 0) [''a.png'', ''bc.png''] [] =
     (Inr \<lparr>images = [VObj 5, VObj 6]\<rparr>,
      [Ext (ImageOpen ''a.png'') (Ret (VObj 5)), Ext (ImageOpen ''bc.png'') (Ret (VObj 6))]) \<and>
   answered_by Windows (demo_world 0 0) []
      [Ext (ImageOpen ''a.png'') (Ret (VObj 5)), Ext (ImageOpen ''bc.png'') (Ret (VObj 6))] \<and>
   glfw_images \<lparr>images = [VObj 5, VObj 6]\<rparr> = [VObj 5, VObj 6] \<and>
   length (glfw_images \<lparr>images = [VObj 5, VObj 6]\<rparr>) = length [''a.png'', ''bc.png''] \<and>
   [Ext (ImageOpen ''a.png'') (Ret (VObj 5)), Ext (ImageOpen ''bc.png'') (Ret (VObj 6))] =
     map2 (\<lambda>p img. Ext (ImageOpen p) (Ret img)) [''a.png'', ''bc.png'']
       (glfw_images \<lparr>images = [VObj 5, VObj 6]\<rparr>) \<and>
   answer (demo_world 0 0) [Ext (ImageOpen ''a.png'') (Ret (VObj 5))] (ImageOpen ''bc.png'') =
     Ret (VObj 6)"
  using Icon_init_opens_each_path_once
          [of "demo_world 0 0" "[''a.png'', ''bc.png'']" "[]" Windows]
        Icon_demo_run
  by (simp add: glfw_images_def demo_world_def demo_answer_def)

text \<open>
  The claim as it is worded says that each image is decoded once. No construction decodes
  anything: two images are opened here, and \<^verbatim>\<open>Image.load\<close> is called on neither.
\<close>

theorem Icon_init_decodes_nothing:
  "Icon_init (demo_world 0 0) [''a.png'', ''bc.png''] [] =
     (Inr \<lparr>images = [VObj 5, VObj 6]\<rparr>,
      [Ext (ImageOpen ''a.png'') (Ret (VObj 5)), Ext (ImageOpen ''bc.png'') (Ret (VObj 6))]) \<and>
   count_list
     (calls [Ext (ImageOpen ''a.png'') (Ret (VObj 5)),
             Ext (ImageOpen ''bc.png'') (Ret (VObj 6))])
     (ImageLoad (VObj 5)) = 0 \<and>
   count_list
     (calls [Ext (ImageOpen ''a.png'') (Ret (VObj 5)),
             Ext (ImageOpen ''bc.png'') (Ret (VObj 6))])
     (ImageLoad (VObj 6)) = 0"
  using Icon_demo_run by simp

subsection \<open>C6: the loop\<close>



subsection \<open>C1, C8, C9: setting the window up\<close>

lemma init_glfw_starts:
  assumes "init_glfw plat w c h = (r, n)"
  shows "\<exists>rest. n = Ext GlfwInit (answer w h GlfwInit) # rest"
proof -
  from assms obtain f where "and_then (ext w GlfwInit) f h = (r, n)"
    unfolding init_glfw_def by blast
  then show ?thesis
  proof (cases rule: and_then_cases)
    case (stops a)
    then show ?thesis by (auto simp: ext_Inl)
  next
    case (goes_on x n1 n2)
    then show ?thesis by (auto simp: ext_Inr)
  qed
qed

lemma init_glfw_created:
  assumes "init_glfw plat w c h = (Inr x, n)"
  shows "GlfwCreateWindow (WINDOW_WIDTH c) (WINDOW_HEIGHT c) (WINDOW_TITLE c) \<in> set (calls n)"
  using assms unfolding init_glfw_def
  by (auto simp: run_simps split: if_splits option.splits prod.splits)

lemma init_glfw_never_raises:
  assumes "init_glfw Windows w c h = (r, n)" and "never_raises w"
  shows "\<not> raised r"
proof -
  from faithful_init_glfw [of Windows w c] assms(1) have "answered_by Windows w h n"
    by (simp add: faithful_def)
  moreover from passes_on_init_glfw [of Windows w c] assms(1)
  have "propagates in_draw_try r n" by (simp add: passes_on_def)
  ultimately show ?thesis using assms(2) answered_by_never_raises by blast
qed



text \<open>
  Claim C8. Once \<^verbatim>\<open>glfw.init\<close> has returned a true value, the next thing \<^verbatim>\<open>_init_glfw\<close>
  does, whatever the class attributes, is to go through \<^verbatim>\<open>ctypes.windll.shell32\<close>. On
  Windows that is the call of \<^verbatim>\<open>SetCurrentProcessExplicitAppUserModelID\<close>, with the
  persistent id if windows are grouped and the unique id otherwise. On any other platform
  the setup ends there with \<^verbatim>\<open>AttributeError\<close>: the trace holds \<^verbatim>\<open>glfw.init\<close> and the failed
  read of \<^verbatim>\<open>ctypes.windll\<close>, and nothing else, so no window was created.
\<close>

theorem init_glfw_windll:
  assumes "answer w h GlfwInit = Ret ok" and "truthy ok"
  shows "if plat = Windows
         then \<exists>r rest.
                init_glfw plat w c h =
                  (r, Ext GlfwInit (Ret ok) #
                      Ext (SetCurrentProcessExplicitAppUserModelID
                             (if GROUP_UNIQUE_WINDOWS_IN_TASKBAR c
                              then WINDOW_ID_PERSISTENT c else WINDOW_ID_UNIQUE c))
                          (answer w (h @ [Ext GlfwInit (Ret ok)])
                             (SetCurrentProcessExplicitAppUserModelID
                                (if GROUP_UNIQUE_WINDOWS_IN_TASKBAR c
                                 then WINDOW_ID_PERSISTENT c else WINDOW_ID_UNIQUE c))) #
                      rest)
         else init_glfw plat w c h =
                (Inl (Raised AttributeError),
                 [Ext GlfwInit (Ret ok), Ext CtypesWindll (Raise AttributeError)])"
proof (cases "plat = Windows")
  case False
  with assms show ?thesis
    by (simp add: init_glfw_def and_then_def ext_def ret_def windll_shell32_def)
next
  case True
  let ?id = "if GROUP_UNIQUE_WINDOWS_IN_TASKBAR c
             then WINDOW_ID_PERSISTENT c else WINDOW_ID_UNIQUE c"
  let ?h = "h @ [Ext GlfwInit (Ret ok)]"
  obtain r n where run: "init_glfw plat w c h = (r, n)"
    by (cases "init_glfw plat w c h")
  have "\<exists>rest. n = Ext GlfwInit (Ret ok) #
          Ext (SetCurrentProcessExplicitAppUserModelID ?id)
            (answer w ?h (SetCurrentProcessExplicitAppUserModelID ?id)) # rest"
  proof (cases "answer w ?h (SetCurrentProcessExplicitAppUserModelID ?id)")
    case (Raise e)
    with run assms True show ?thesis
      by (auto simp: init_glfw_def and_then_def ext_def ret_def windll_shell32_def)
  next
    case (Ret v)
    with run assms True show ?thesis
      by (auto simp: init_glfw_def and_then_def [of "ext w GlfwInit"]
            and_then_def [of "ret VNone"] and_then_def [of "windll_shell32 plat w _"]
            and_then_def [of "if _ then _ else _"]
            ext_def ret_def windll_shell32_def split: prod.splits)
  qed
  with run True show ?thesis by auto
qed

theorem init_glfw_windll_witness:
  "answer (demo_world 0 0) [] GlfwInit = Ret (VInt 1) \<and> truthy (VInt 1) \<and>
   init_glfw Posix (demo_world 0 0) demo_class [] =
     (Inl (Raised AttributeError),
      [Ext GlfwInit (Ret (VInt 1)), Ext CtypesWindll (Raise AttributeError)])"
  using init_glfw_windll [where w = "demo_world 0 0" and h = "[]" and ok = "VInt 1"
                            and plat = Posix and c = demo_class]
  by (simp add: demo_world_def demo_answer_def)

lemma calls_mem: "c \<in> set (calls n) \<longleftrightarrow> (\<exists>r. Ext c r \<in> set n)"
  by (induction n rule: calls.induct) auto

lemma init_glfw_null_calls:
  assumes "init_glfw plat w c h = (Inl (Exit 1), n)"
      and "failed (GlfwCreateWindow (WINDOW_WIDTH c) (WINDOW_HEIGHT c) (WINDOW_TITLE c)) n"
  shows "\<exists>win. \<not> truthy win \<and>
            Ext (GlfwCreateWindow (WINDOW_WIDTH c) (WINDOW_HEIGHT c) (WINDOW_TITLE c)) (Ret win)
              \<in> set n \<and>
            calls n =
              [GlfwInit,
               SetCurrentProcessExplicitAppUserModelID
                 (if GROUP_UNIQUE_WINDOWS_IN_TASKBAR c
                  then WINDOW_ID_PERSISTENT c else WINDOW_ID_UNIQUE c),
               GlfwWindowHint CONTEXT_VERSION_MAJOR (GLFW_CONTEXT_VERSION_MAJOR c),
               GlfwWindowHint CONTEXT_VERSION_MINOR (GLFW_CONTEXT_VERSION_MINOR c),
               GlfwWindowHint OPENGL_PROFILE (GLFW_OPENGL_PROFILE c),
               GlfwWindowHint OPENGL_FORWARD_COMPAT 1,
               GlfwCreateWindow (WINDOW_WIDTH c) (WINDOW_HEIGHT c) (WINDOW_TITLE c),
               GlfwMakeContextCurrent win] @ icon_calls c win @
              [GlfwTerminate, LoggerCritical ''Could not initialize Window'']"
  using assms unfolding init_glfw_def
  apply (simp add: run_simps split: if_splits option.splits prod.splits)
  apply (auto simp: icon_calls_def)
  done

text \<open>
  Claim C9. On Windows, with libraries that never raise, a \<^verbatim>\<open>glfw.init\<close> that succeeds and
  a \<^verbatim>\<open>glfw.create_window\<close> that returns the null handle \<open>win\<close>, \<^verbatim>\<open>_init_glfw\<close> exits with
  code 1 and these are all the calls it has made, in order: \<^verbatim>\<open>glfw.init\<close>, the taskbar
  id, the four window hints, \<^verbatim>\<open>glfw.create_window\<close>, then
  \<^verbatim>\<open>glfw.make_context_current\<close> on the null handle, then \<^verbatim>\<open>glfw.set_window_icon\<close> on the
  null handle if the class has an icon, and only then \<^verbatim>\<open>glfw.terminate\<close> and the log
  record. And whatever the platform and the libraries: the trace holds the libraries' own
  answers, and if \<^verbatim>\<open>glfw.create_window\<close> returned a false value and no call raised, the
  setup exits with code 1 after a trace that ends with those calls from
  \<^verbatim>\<open>glfw.create_window\<close> on.
\<close>

theorem init_glfw_null_window:
  "(plat = Windows \<and> never_raises w \<and> (\<forall>h'. is_set (answer w h' GlfwInit)) \<and>
    (\<forall>h'. answer w h'
            (GlfwCreateWindow (WINDOW_WIDTH c) (WINDOW_HEIGHT c) (WINDOW_TITLE c)) = Ret win) \<and>
    \<not> truthy win \<longrightarrow>
      (\<exists>n. init_glfw plat w c h = (Inl (Exit 1), n) \<and>
           calls n =
             [GlfwInit,
              SetCurrentProcessExplicitAppUserModelID
                (if GROUP_UNIQUE_WINDOWS_IN_TASKBAR c
                 then WINDOW_ID_PERSISTENT c else WINDOW_ID_UNIQUE c),
              GlfwWindowHint CONTEXT_VERSION_MAJOR (GLFW_CONTEXT_VERSION_MAJOR c),
              GlfwWindowHint CONTEXT_VERSION_MINOR (GLFW_CONTEXT_VERSION_MINOR c),
              GlfwWindowHint OPENGL_PROFILE (GLFW_OPENGL_PROFILE c),
              GlfwWindowHint OPENGL_FORWARD_COMPAT 1,
              GlfwCreateWindow (WINDOW_WIDTH c) (WINDOW_HEIGHT c) (WINDOW_TITLE c),
              GlfwMakeContextCurrent win] @ icon_calls c win @
             [GlfwTerminate, LoggerCritical ''Could not initialize Window''])) \<and>
   (\<forall>r n. init_glfw plat w c h = (r, n) \<longrightarrow>
      answered_by plat w h n \<and>
      (failed (GlfwCreateWindow (WINDOW_WIDTH c) (WINDOW_HEIGHT c) (WINDOW_TITLE c)) n \<and>
       \<not> raised r \<longrightarrow>
         r = Inl (Exit 1) \<and>
         (\<exists>win. \<not> truthy win \<and>
            suffix ([GlfwCreateWindow (WINDOW_WIDTH c) (WINDOW_HEIGHT c) (WINDOW_TITLE c),
                     GlfwMakeContextCurrent win] @ icon_calls c win @
                    [GlfwTerminate, LoggerCritical ''Could not initialize Window''])
                   (calls n))))"
proof (intro conjI allI impI)
  let ?create = "GlfwCreateWindow (WINDOW_WIDTH c) (WINDOW_HEIGHT c) (WINDOW_TITLE c)"
  let ?calls = "\<lambda>win.
     [GlfwInit,
      SetCurrentProcessExplicitAppUserModelID
        (if GROUP_UNIQUE_WINDOWS_IN_TASKBAR c
         then WINDOW_ID_PERSISTENT c else WINDOW_ID_UNIQUE c),
      GlfwWindowHint CONTEXT_VERSION_MAJOR (GLFW_CONTEXT_VERSION_MAJOR c),
      GlfwWindowHint CONTEXT_VERSION_MINOR (GLFW_CONTEXT_VERSION_MINOR c),
      GlfwWindowHint OPENGL_PROFILE (GLFW_OPENGL_PROFILE c),
      GlfwWindowHint OPENGL_FORWARD_COMPAT 1,
      ?create, GlfwMakeContextCurrent win] @ icon_calls c win @
     [GlfwTerminate, LoggerCritical ''Could not initialize Window'']"
  assume good: "plat = Windows \<and> never_raises w \<and> (\<forall>h'. is_set (answer w h' GlfwInit)) \<and>
    (\<forall>h'. answer w h' ?create = Ret win) \<and> \<not> truthy win"
  obtain r n where run: "init_glfw plat w c h = (r, n)" by (cases "init_glfw plat w c h")
  from faithful_init_glfw [of plat w c] run have ans: "answered_by plat w h n"
    by (simp add: faithful_def)
  from run good have nr: "\<not> raised r" using init_glfw_never_raises by blast
  have null: "v = win" if "Ext ?create (Ret v) \<in> set n" for v
  proof -
    from answered_by_mem [OF ans that] obtain h' where "Ret v = answer w h' ?create" by auto
    with good show ?thesis by simp
  qed
  have init: "\<not> failed GlfwInit n"
  proof
    assume "failed GlfwInit n"
    from answered_by_failed [OF ans this] good show False by simp
  qed
  have failed: "failed ?create n" if "?create \<in> set (calls n)"
  proof -
    from that obtain a where a: "Ext ?create a \<in> set n" unfolding calls_mem by blast
    from answered_by_mem [OF ans a] obtain h' where "a = answer w h' ?create" by auto
    with good have "a = Ret win" by simp
    with a good show ?thesis unfolding failed_def by blast
  qed
  have exit: "r = Inl (Exit 1)"
  proof (cases r)
    case (Inr x)
    with run have "?create \<in> set (calls n)" using init_glfw_created by blast
    then have "failed ?create n" by (rule failed)
    with run nr show ?thesis using init_glfw_failed by blast
  next
    case (Inl a)
    show ?thesis
    proof (cases a)
      case (Raised e)
      with Inl nr show ?thesis by simp
    next
      case (Exit code)
      with Inl run init_glfw_Exit [of plat w c h code n] show ?thesis by simp
    qed
  qed
  with run have run1: "init_glfw plat w c h = (Inl (Exit 1), n)" by simp
  from init_glfw_Exit [OF run1] init have "failed ?create n" by blast
  from init_glfw_null_calls [OF run1 this] obtain v where
    v: "Ext ?create (Ret v) \<in> set n" "calls n = ?calls v"
    by blast
  from null [OF v(1)] v(2) have "calls n = ?calls win" by simp
  with run1 show "\<exists>n. init_glfw plat w c h = (Inl (Exit 1), n) \<and> calls n = ?calls win"
    by blast
next
  fix r n
  assume run: "init_glfw plat w c h = (r, n)"
  from faithful_init_glfw [of plat w c] run show "answered_by plat w h n"
    by (simp add: faithful_def)
next
  fix r n
  let ?create = "GlfwCreateWindow (WINDOW_WIDTH c) (WINDOW_HEIGHT c) (WINDOW_TITLE c)"
  assume run: "init_glfw plat w c h = (r, n)"
     and bad: "failed ?create n \<and> \<not> raised r"
  from run bad show r: "r = Inl (Exit 1)" by (intro init_glfw_failed) auto
  with run have "init_glfw plat w c h = (Inl (Exit 1), n)" by simp
  from init_glfw_null [OF this] bad
  show "\<exists>win. \<not> truthy win \<and>
            suffix ([?create, GlfwMakeContextCurrent win] @ icon_calls c win @
                    [GlfwTerminate, LoggerCritical ''Could not initialize Window''])
                   (calls n)"
    by blast
qed

theorem init_glfw_null_window_witness:
  "never_raises no_window_world \<and>
   (\<forall>h'. is_set (answer no_window_world h' GlfwInit)) \<and>
   (\<forall>h'. answer no_window_world h' (GlfwCreateWindow 1280 720 []) = Ret (VPtr 0)) \<and>
   \<not> truthy (VPtr 0) \<and>
   init_glfw Windows no_window_world icon_class [] = (Inl (Exit 1), no_window_trace) \<and>
   answered_by Windows no_window_world [] no_window_trace \<and>
   failed (GlfwCreateWindow 1280 720 []) no_window_trace \<and>
   icon_calls icon_class (VPtr 0) = [GlfwSetWindowIcon (VPtr 0) 1 [VObj 5]] \<and>
   calls no_window_trace =
     [GlfwInit, SetCurrentProcessExplicitAppUserModelID ''default'',
      GlfwWindowHint CONTEXT_VERSION_MAJOR 3, GlfwWindowHint CONTEXT_VERSION_MINOR 3,
      GlfwWindowHint OPENGL_PROFILE 204801, GlfwWindowHint OPENGL_FORWARD_COMPAT 1,
      GlfwCreateWindow 1280 720 [], GlfwMakeContextCurrent (VPtr 0),
      GlfwSetWindowIcon (VPtr 0) 1 [VObj 5], GlfwTerminate,
      LoggerCritical ''Could not initialize Window'']"
proof -
  note inst = init_glfw_null_window [of Windows no_window_world icon_class "VPtr 0" "[]"]
  have attrs: "WINDOW_WIDTH icon_class = 1280" "WINDOW_HEIGHT icon_class = 720"
    "WINDOW_TITLE icon_class = []"
    by (simp_all add: icon_class_def demo_class_def Window_base_def)
  have nr: "never_raises no_window_world"
    by (auto simp: never_raises_def no_window_world_def answering_def demo_world_def
          demo_answer_def split: call.splits)
  have init: "\<forall>h'. is_set (answer no_window_world h' GlfwInit)"
    by (simp add: no_window_world_def answering_def demo_world_def demo_answer_def)
  have null: "\<forall>h'. answer no_window_world h' (GlfwCreateWindow 1280 720 []) = Ret (VPtr 0)"
    by (simp add: no_window_world_def answering_def)
  from inst [THEN conjunct1] nr init null attrs
  have "\<exists>n. init_glfw Windows no_window_world icon_class [] = (Inl (Exit 1), n)"
    by auto
  from inst [THEN conjunct2, rule_format, OF run_no_window]
  have ans: "answered_by Windows no_window_world [] no_window_trace" by (rule conjunct1)
  have "failed (GlfwCreateWindow 1280 720 []) no_window_trace"
    and "icon_calls icon_class (VPtr 0) = [GlfwSetWindowIcon (VPtr 0) 1 [VObj 5]]"
    and "calls no_window_trace =
     [GlfwInit, SetCurrentProcessExplicitAppUserModelID ''default'',
      GlfwWindowHint CONTEXT_VERSION_MAJOR 3, GlfwWindowHint CONTEXT_VERSION_MINOR 3,
      GlfwWindowHint OPENGL_PROFILE 204801, GlfwWindowHint OPENGL_FORWARD_COMPAT 1,
      GlfwCreateWindow 1280 720 [], GlfwMakeContextCurrent (VPtr 0),
      GlfwSetWindowIcon (VPtr 0) 1 [VObj 5], GlfwTerminate,
      LoggerCritical ''Could not initialize Window'']"
    by (simp_all add: no_window_trace_def icon_calls_def icon_class_def glfw_images_def)
  with nr init null run_no_window ans show ?thesis by (intro conjI) simp_all
qed

subsection \<open>C2: the phases\<close>



end
